theory Spec2Isabelle
  imports Main "HOL-Library.Monad_Syntax"
begin

section \<open>Values shared by all stages\<close>

text \<open>
  The program (\<^verbatim>\<open>eqsat.py\<close>) is a pipeline
  \<^verbatim>\<open>tokenize\<close> \<open>\<rightarrow>\<close> \<^verbatim>\<open>parse_expression\<close> \<open>\<rightarrow>\<close> \<^verbatim>\<open>saturation\<close>
  \<open>\<rightarrow>\<close> \<^verbatim>\<open>print_ast\<close> / \<^verbatim>\<open>cost\<close>.

  The tokenizer, the parser, the printer and the cost function never assign to a field of
  an \<^verbatim>\<open>ASTNode\<close>: for them a tree is a value, the datatype \<open>ast\<close> below.  The parser
  builds a node in exactly two ways, \<^verbatim>\<open>ASTNode(token)\<close> (both children \<^verbatim>\<open>None\<close>) and
  \<^verbatim>\<open>ASTNode(op, node, right)\<close>, which are the two constructors.

  \<^verbatim>\<open>rewrite\<close> assigns to \<^verbatim>\<open>node.left\<close> and \<^verbatim>\<open>node.right\<close>, and its distributive rule
  puts the same object \<^verbatim>\<open>a\<close> under two new parents.  It is therefore modelled over an
  explicit store of objects (section \<open>The object store\<close>), together with
  \<^verbatim>\<open>copy.deepcopy\<close>, \<^verbatim>\<open>ASTNode.__eq__\<close> and \<^verbatim>\<open>saturation\<close>.

  Strings are lists of 8-bit characters; the digit and letter tests are the ASCII ones
  (the specification restricts the input to ASCII letters, digits, operators and
  whitespace).  Python integers are unbounded; the literals are non-negative and only
  added and multiplied, so they are natural numbers here.  Python's recursion limit is
  not modelled.
\<close>

datatype ast = Leaf string | Node string ast ast

datatype error = IndexError | ValueError string | AttributeError

definition is_digit_char :: "char \<Rightarrow> bool" where
  "is_digit_char c = (c \<in> set ''0123456789'')"

definition is_alpha_char :: "char \<Rightarrow> bool" where
  "is_alpha_char c = (c \<in> set ''abcdefghijklmnopqrstuvwxyzABCDEFGHIJKLMNOPQRSTUVWXYZ'')"

definition is_op_char :: "char \<Rightarrow> bool" where
  "is_op_char c = (c \<in> set ''+*/()-'')"

text \<open>\<^verbatim>\<open>str.isdigit()\<close> and \<^verbatim>\<open>str.isalpha()\<close>: false on the empty string.\<close>

definition isdigit :: "string \<Rightarrow> bool" where
  "isdigit s = (s \<noteq> [] \<and> list_all is_digit_char s)"

definition isalpha :: "string \<Rightarrow> bool" where
  "isalpha s = (s \<noteq> [] \<and> list_all is_alpha_char s)"

section \<open>Tokenizer\<close>

text \<open>
  \<^verbatim>\<open>re.findall(r'\d+|[a-zA-Z]+|[+*/()-]', expr)\<close>: scanning from the left, the first
  alternative that matches at the current position wins and is greedy; a character at
  which no alternative matches is skipped.
\<close>

function tokenize :: "string \<Rightarrow> string list" where
  "tokenize [] = []"
| "tokenize (c # cs) =
     (if is_digit_char c then
        takeWhile is_digit_char (c # cs) # tokenize (dropWhile is_digit_char cs)
      else if is_alpha_char c then
        takeWhile is_alpha_char (c # cs) # tokenize (dropWhile is_alpha_char cs)
      else if is_op_char c then [c] # tokenize cs
      else tokenize cs)"
  by pat_completeness auto
termination
  by (relation "measure length") (auto simp: length_dropWhile_le less_Suc_eq_le)

declare tokenize.simps [simp del]

section \<open>Parser\<close>

text \<open>
  The three nested functions of \<^verbatim>\<open>parse_expression\<close> read the enclosing \<^verbatim>\<open>tokens\<close>
  by index; \<^verbatim>\<open>tokens[i]\<close> with \<open>i\<close> past the end raises \<^verbatim>\<open>IndexError\<close>.  The two
  \<^verbatim>\<open>while\<close> loops are the functions \<open>term_loop\<close> and \<open>sum_loop\<close>, whose arguments are
  the loop variables \<^verbatim>\<open>node\<close> and \<^verbatim>\<open>i\<close>.
\<close>

function (domintros) parse_factor :: "string list \<Rightarrow> nat \<Rightarrow> error + ast \<times> nat"
  and parse_term :: "string list \<Rightarrow> nat \<Rightarrow> error + ast \<times> nat"
  and term_loop :: "string list \<Rightarrow> ast \<Rightarrow> nat \<Rightarrow> error + ast \<times> nat"
  and parse_sum :: "string list \<Rightarrow> nat \<Rightarrow> error + ast \<times> nat"
  and sum_loop :: "string list \<Rightarrow> ast \<Rightarrow> nat \<Rightarrow> error + ast \<times> nat"
where
  "parse_factor tokens i =
     (if i < length tokens then
        (let token = tokens ! i in
         if isdigit token \<or> isalpha token then Inr (Leaf token, i + 1)
         else if token = ''('' then
           (case parse_sum tokens (i + 1) of
              Inl e \<Rightarrow> Inl e
            | Inr (node, j) \<Rightarrow> Inr (node, j + 1))
         else Inl (ValueError (''Unexpected token: '' @ token)))
      else Inl IndexError)"
| "parse_term tokens i =
     (case parse_factor tokens i of
        Inl e \<Rightarrow> Inl e
      | Inr (node, i') \<Rightarrow> term_loop tokens node i')"
| "term_loop tokens node i =
     (if i < length tokens \<and> tokens ! i = ''*'' then
        (case parse_factor tokens (i + 1) of
           Inl e \<Rightarrow> Inl e
         | Inr (right, i') \<Rightarrow> term_loop tokens (Node (tokens ! i) node right) i')
      else Inr (node, i))"
| "parse_sum tokens i =
     (case parse_term tokens i of
        Inl e \<Rightarrow> Inl e
      | Inr (node, i') \<Rightarrow> sum_loop tokens node i')"
| "sum_loop tokens node i =
     (if i < length tokens \<and> tokens ! i = ''+'' then
        (case parse_term tokens (i + 1) of
           Inl e \<Rightarrow> Inl e
         | Inr (right, i') \<Rightarrow> sum_loop tokens (Node (tokens ! i) node right) i')
      else Inr (node, i))"
  by pat_completeness auto

text \<open>
  Termination of the loops depends on what the calls inside them return: a successful
  call at index \<open>i\<close> returns an index beyond \<open>i\<close>, and only when \<open>i\<close> is in range.
\<close>

lemma parse_index_grows_dom:
  "parse_factor_parse_term_term_loop_parse_sum_sum_loop_dom (Inl (Inl (ts, i))) \<Longrightarrow>
     \<forall>n j. parse_factor ts i = Inr (n, j) \<longrightarrow> i < j \<and> i < length ts"
  "parse_factor_parse_term_term_loop_parse_sum_sum_loop_dom (Inl (Inr (ts, i))) \<Longrightarrow>
     \<forall>n j. parse_term ts i = Inr (n, j) \<longrightarrow> i < j \<and> i < length ts"
  "parse_factor_parse_term_term_loop_parse_sum_sum_loop_dom (Inr (Inl (ts, nd, i))) \<Longrightarrow>
     \<forall>n j. term_loop ts nd i = Inr (n, j) \<longrightarrow> i \<le> j"
  "parse_factor_parse_term_term_loop_parse_sum_sum_loop_dom (Inr (Inr (Inl (ts, i)))) \<Longrightarrow>
     \<forall>n j. parse_sum ts i = Inr (n, j) \<longrightarrow> i < j \<and> i < length ts"
  "parse_factor_parse_term_term_loop_parse_sum_sum_loop_dom (Inr (Inr (Inr (ts, nd, i)))) \<Longrightarrow>
     \<forall>n j. sum_loop ts nd i = Inr (n, j) \<longrightarrow> i \<le> j"
proof (induct ts i and ts i and ts nd i and ts i and ts nd i
    rule: parse_factor_parse_term_term_loop_parse_sum_sum_loop.pinduct)
  case (1 tokens i)
  show ?case
  proof (intro allI impI)
    fix n j
    assume r: "parse_factor tokens i = Inr (n, j)"
    show "i < j \<and> i < length tokens"
    proof (cases "i < length tokens")
      case False
      with r 1(1) show ?thesis by (simp add: parse_factor.psimps)
    next
      case lt: True
      show ?thesis
      proof (cases "isdigit (tokens ! i) \<or> isalpha (tokens ! i)")
        case True
        with r 1(1) lt show ?thesis by (auto simp: parse_factor.psimps)
      next
        case nl: False
        show ?thesis
        proof (cases "tokens ! i = ''(''")
          case True
          from 1(2)[OF lt refl nl True]
          have ih: "\<forall>n j. parse_sum tokens (i + 1) = Inr (n, j) \<longrightarrow> i + 1 < j" by simp
          from r 1(1) lt nl True obtain j' where
            "parse_sum tokens (i + 1) = Inr (n, j')" "j = j' + 1"
            by (auto simp: parse_factor.psimps split: sum.splits prod.splits)
          with ih lt show ?thesis by auto
        next
          case False
          with r 1(1) lt nl show ?thesis by (simp add: parse_factor.psimps)
        qed
      qed
    qed
  qed
next
  case (2 tokens i)
  show ?case
  proof (intro allI impI)
    fix n j
    assume r: "parse_term tokens i = Inr (n, j)"
    with 2(1) obtain nd i' where f: "parse_factor tokens i = Inr (nd, i')"
      and l: "term_loop tokens nd i' = Inr (n, j)"
      by (auto simp: parse_term.psimps split: sum.splits prod.splits)
    from 2(2) f have "i < i' \<and> i < length tokens" by blast
    moreover from 2(3)[OF f refl] l have "i' \<le> j" by blast
    ultimately show "i < j \<and> i < length tokens" by simp
  qed
next
  case (3 tokens node i)
  show ?case
  proof (intro allI impI)
    fix n j
    assume r: "term_loop tokens node i = Inr (n, j)"
    show "i \<le> j"
    proof (cases "i < length tokens \<and> tokens ! i = ''*''")
      case True
      with r 3(1) obtain rt i' where f: "parse_factor tokens (i + 1) = Inr (rt, i')"
        and l: "term_loop tokens (Node (tokens ! i) node rt) i' = Inr (n, j)"
        by (auto simp: term_loop.psimps split: sum.splits prod.splits)
      from 3(2)[OF True] f have "i + 1 < i'" by blast
      moreover from 3(3)[OF True f refl] l have "i' \<le> j" by blast
      ultimately show ?thesis by simp
    next
      case False
      with r 3(1) show ?thesis by (auto simp: term_loop.psimps)
    qed
  qed
next
  case (4 tokens i)
  show ?case
  proof (intro allI impI)
    fix n j
    assume r: "parse_sum tokens i = Inr (n, j)"
    with 4(1) obtain nd i' where f: "parse_term tokens i = Inr (nd, i')"
      and l: "sum_loop tokens nd i' = Inr (n, j)"
      by (auto simp: parse_sum.psimps split: sum.splits prod.splits)
    from 4(2) f have "i < i' \<and> i < length tokens" by blast
    moreover from 4(3)[OF f refl] l have "i' \<le> j" by blast
    ultimately show "i < j \<and> i < length tokens" by simp
  qed
next
  case (5 tokens node i)
  show ?case
  proof (intro allI impI)
    fix n j
    assume r: "sum_loop tokens node i = Inr (n, j)"
    show "i \<le> j"
    proof (cases "i < length tokens \<and> tokens ! i = ''+''")
      case True
      with r 5(1) obtain rt i' where f: "parse_term tokens (i + 1) = Inr (rt, i')"
        and l: "sum_loop tokens (Node (tokens ! i) node rt) i' = Inr (n, j)"
        by (auto simp: sum_loop.psimps split: sum.splits prod.splits)
      from 5(2)[OF True] f have "i + 1 < i'" by blast
      moreover from 5(3)[OF True f refl] l have "i' \<le> j" by blast
      ultimately show ?thesis by simp
    next
      case False
      with r 5(1) show ?thesis by (auto simp: sum_loop.psimps)
    qed
  qed
qed

definition parse_measure ::
  "(string list \<times> nat + string list \<times> nat) + (string list \<times> ast \<times> nat) +
     (string list \<times> nat) + (string list \<times> ast \<times> nat) \<Rightarrow> nat \<times> nat" where
  "parse_measure x =
     (case x of
        Inl (Inl (ts, i)) \<Rightarrow> (length ts + 1 - i, 0)
      | Inl (Inr (ts, i)) \<Rightarrow> (length ts + 1 - i, 1)
      | Inr (Inl (ts, nd, i)) \<Rightarrow> (length ts + 1 - i, 0)
      | Inr (Inr (Inl (ts, i))) \<Rightarrow> (length ts + 1 - i, 2)
      | Inr (Inr (Inr (ts, nd, i))) \<Rightarrow> (length ts + 1 - i, 0))"

termination parse_factor
proof (relation "inv_image (less_than <*lex*> less_than) parse_measure", goal_cases)
  case 1
  then show ?case by (intro wf_inv_image wf_lex_prod wf_less_than)
next
  case (2 tokens i x)
  then show ?case by (simp add: parse_measure_def)
next
  case (3 tokens i)
  then show ?case by (simp add: parse_measure_def)
next
  case (4 tokens i b x y)
  then show ?case using parse_index_grows_dom(1)[of tokens i]
    by (auto simp add: parse_measure_def)
next
  case (5 tokens node i)
  then show ?case by (auto simp add: parse_measure_def)
next
  case (6 tokens node i b x y)
  then show ?case using parse_index_grows_dom(1)[of tokens "i + 1"]
    by (auto simp add: parse_measure_def)
next
  case (7 tokens i)
  then show ?case by (simp add: parse_measure_def)
next
  case (8 tokens i b x y)
  then show ?case using parse_index_grows_dom(2)[of tokens i]
    by (auto simp add: parse_measure_def)
next
  case (9 tokens node i)
  then show ?case by (auto simp add: parse_measure_def)
next
  case (10 tokens node i b x y)
  then show ?case using parse_index_grows_dom(2)[of tokens "i + 1"]
    by (auto simp add: parse_measure_def)
qed

declare parse_factor.simps [simp del] parse_term.simps [simp del] term_loop.simps [simp del]
  parse_sum.simps [simp del] sum_loop.simps [simp del]

definition parse_expression :: "string list \<Rightarrow> error + ast" where
  "parse_expression tokens =
     (case parse_sum tokens 0 of
        Inl e \<Rightarrow> Inl e
      | Inr (node, _) \<Rightarrow> Inr node)"

section \<open>Printer and cost model\<close>

fun print_ast :: "ast \<Rightarrow> string" where
  "print_ast (Leaf v) = v"
| "print_ast (Node v l r) = ''('' @ print_ast l @ '' '' @ v @ '' '' @ print_ast r @ '')''"

fun cost :: "ast \<Rightarrow> nat" where
  "cost (Leaf v) = 1"
| "cost (Node v l r) = 1 + cost l + cost r"

section \<open>The object store\<close>

text \<open>
  An \<^verbatim>\<open>ASTNode\<close> object is a record of its three fields; a reference to an object is
  its index in the store, \<^verbatim>\<open>None\<close> is \<open>None\<close>.  The store only grows: \<^verbatim>\<open>ASTNode(v, l, r)\<close>
  appends an object and returns its index.  Assignment to a field is a list update at the
  index of the object, so two parents that hold the same index both see it.  A Python
  reference always leads to an object; an index past the end of the store has no
  counterpart in the program, and the statements below are about references inside the
  store.
\<close>

record node =
  val :: string
  left :: "nat option"
  right :: "nat option"

type_synonym heap = "node list"

definition new_node :: "heap \<Rightarrow> string \<Rightarrow> nat option \<Rightarrow> nat option \<Rightarrow> heap \<times> nat option" where
  "new_node h v l r = (h @ [\<lparr>val = v, left = l, right = r\<rparr>], Some (length h))"

text \<open>
  \<^verbatim>\<open>int(s)\<close> on a string of decimal digits and \<^verbatim>\<open>str(n)\<close> on a non-negative integer
  (the bound that CPython puts on the number of digits of such a conversion is not
  modelled).
\<close>

definition digit_val :: "char \<Rightarrow> nat" where
  "digit_val c = length (takeWhile (\<lambda>d. d \<noteq> c) ''0123456789'')"

definition digit_char :: "nat \<Rightarrow> char" where
  "digit_char d = ''0123456789'' ! d"

definition int_of_str :: "string \<Rightarrow> nat" where
  "int_of_str s = foldl (\<lambda>n c. 10 * n + digit_val c) 0 s"

function str_of_int :: "nat \<Rightarrow> string" where
  "str_of_int n = (if n < 10 then [digit_char n] else str_of_int (n div 10) @ [digit_char (n mod 10)])"
  by pat_completeness auto

termination
  by (relation "measure id") auto

declare str_of_int.simps [simp del]

section \<open>Rewrite pass\<close>

text \<open>
  The rules of \<^verbatim>\<open>rewrite\<close>, in the order of the \<^verbatim>\<open>if\<close> statements of the source, applied
  to the object \<open>p\<close> once its two fields hold the rewritten children.  Reading
  \<^verbatim>\<open>.value\<close> of \<^verbatim>\<open>None\<close> is an \<^verbatim>\<open>AttributeError\<close>.  The distributive rule reads
  \<^verbatim>\<open>node.right.left\<close> and \<^verbatim>\<open>node.right.right\<close> without testing them and stores the
  reference \<^verbatim>\<open>a\<close> in two new objects.

  A call either returns, with the store as it then is and the returned reference, or
  raises, with the error and the store as it is at that moment: what was assigned before
  an exception stays assigned.

  \<^verbatim>\<open>rewrite\<close> returns its argument, a field it has just assigned from a call of itself, or
  a new object, and never \<^verbatim>\<open>None\<close> (lemma \<open>rewrite_h_returns_object\<close>); so both fields
  hold an object whenever \<^verbatim>\<open>rewrite\<close> reaches its rules.
\<close>

type_synonym outcome = "error \<times> heap + heap \<times> nat option"

definition rewrite_rules :: "heap \<Rightarrow> nat \<Rightarrow> outcome" where
  "rewrite_rules h p =
     (let node = h ! p in
      case left node of
        None \<Rightarrow> Inl (AttributeError, h)
      | Some l \<Rightarrow>
     (case right node of
        None \<Rightarrow> Inl (AttributeError, h)
      | Some r \<Rightarrow>
     (let v = val node; lv = val (h ! l); rv = val (h ! r) in
      if v = ''+'' \<and> rv = ''0'' then Inr (h, left node)
      else if v = ''+'' \<and> lv = ''0'' then Inr (h, right node)
      else if v = ''*'' \<and> rv = ''1'' then Inr (h, left node)
      else if v = ''*'' \<and> lv = ''1'' then Inr (h, right node)
      else if v = ''*'' \<and> ''0'' \<in> set [lv, rv] then Inr (new_node h ''0'' None None)
      else if isdigit lv \<and> isdigit rv \<and> v = ''+'' then
        Inr (new_node h (str_of_int (int_of_str lv + int_of_str rv)) None None)
      else if isdigit lv \<and> isdigit rv \<and> v = ''*'' then
        Inr (new_node h (str_of_int (int_of_str lv * int_of_str rv)) None None)
      else if v = ''*'' \<and> rv = ''+'' then
        (let a = left node; b = left (h ! r); c = right (h ! r);
             (h1, ab) = new_node h ''*'' a b;
             (h2, ac) = new_node h1 ''*'' a c
         in Inr (new_node h2 ''+'' ab ac))
      else Inr (h, Some p))))"

text \<open>
  \<^verbatim>\<open>rewrite\<close>: a leaf is returned as it is; otherwise the left child is rewritten and
  assigned to \<^verbatim>\<open>node.left\<close>, then the right child (read after that assignment) is
  rewritten and assigned to \<^verbatim>\<open>node.right\<close>, then the rules apply.  The recursion follows
  references, so it is a partial function: \<open>None\<close> stands for a run that does not return.
\<close>

partial_function (option) rewrite_h :: "heap \<Rightarrow> nat option \<Rightarrow> outcome option" where
  "rewrite_h h node =
     (case node of
        None \<Rightarrow> Some (Inl (AttributeError, h))
      | Some p \<Rightarrow>
          if left (h ! p) = None then Some (Inr (h, node))
          else do {
            r1 \<leftarrow> rewrite_h h (left (h ! p));
            case r1 of
              Inl e \<Rightarrow> Some (Inl e)
            | Inr (h1, l') \<Rightarrow> do {
                let h1' = h1[p := (h1 ! p)\<lparr>left := l'\<rparr>];
                r2 \<leftarrow> rewrite_h h1' (right (h1' ! p));
                case r2 of
                  Inl e \<Rightarrow> Some (Inl e)
                | Inr (h2, r') \<Rightarrow> Some (rewrite_rules (h2[p := (h2 ! p)\<lparr>right := r'\<rparr>]) p)
              }
          })"

section \<open>Saturation driver\<close>

text \<open>
  \<^verbatim>\<open>copy.deepcopy\<close> with its memo table (from the index of an object to the index of its
  copy), so that an object reached twice is copied once.  The copy of an object is
  allocated here after the copies of its children; on a store without cycles the order of
  allocation cannot be observed.
\<close>

partial_function (option) deepcopy ::
  "heap \<Rightarrow> (nat \<rightharpoonup> nat) \<Rightarrow> nat option \<Rightarrow> (heap \<times> (nat \<rightharpoonup> nat) \<times> nat option) option" where
  "deepcopy h memo x =
     (case x of
        None \<Rightarrow> Some (h, memo, None)
      | Some p \<Rightarrow>
          (case memo p of
             Some y \<Rightarrow> Some (h, memo, Some y)
           | None \<Rightarrow> do {
               (h1, memo1, l') \<leftarrow> deepcopy h memo (left (h ! p));
               (h2, memo2, r') \<leftarrow> deepcopy h1 memo1 (right (h1 ! p));
               let (h3, y) = new_node h2 (val (h2 ! p)) l' r';
               Some (h3, memo2(p := y), y)
             }))"

text \<open>
  \<^verbatim>\<open>ASTNode.__eq__\<close>, also covering the comparisons with \<^verbatim>\<open>None\<close> that \<^verbatim>\<open>==\<close> and \<^verbatim>\<open>!=\<close>
  resolve without it: \<^verbatim>\<open>None\<close> equals only \<^verbatim>\<open>None\<close>.  The \<^verbatim>\<open>and\<close> chain stops at the
  first difference.
\<close>

partial_function (option) ast_eq :: "heap \<Rightarrow> nat option \<Rightarrow> nat option \<Rightarrow> bool option" where
  "ast_eq h x y =
     (case x of
        None \<Rightarrow> Some (y = None)
      | Some a \<Rightarrow>
          (case y of
             None \<Rightarrow> Some False
           | Some b \<Rightarrow>
               if val (h ! a) = val (h ! b) then do {
                 el \<leftarrow> ast_eq h (left (h ! a)) (left (h ! b));
                 if el then ast_eq h (right (h ! a)) (right (h ! b)) else Some False
               } else Some False))"

text \<open>
  The loop of \<^verbatim>\<open>saturation\<close> with its two variables, and \<^verbatim>\<open>saturation\<close> itself.
\<close>

partial_function (option) saturation_loop ::
  "heap \<Rightarrow> nat option \<Rightarrow> nat option \<Rightarrow> outcome option" where
  "saturation_loop h prev current = do {
     same \<leftarrow> ast_eq h prev current;
     if \<not> same then do {
       (h1, _, prev') \<leftarrow> deepcopy h Map.empty current;
       r \<leftarrow> rewrite_h h1 current;
       case r of
         Inl e \<Rightarrow> Some (Inl e)
       | Inr (h2, current') \<Rightarrow> saturation_loop h2 prev' current'
     } else Some (Inr (h, current))
   }"

definition saturation :: "heap \<Rightarrow> nat option \<Rightarrow> outcome option" where
  "saturation h ast = do {
     (h0, _, current) \<leftarrow> deepcopy h Map.empty ast;
     saturation_loop h0 None current
   }"


section \<open>Between tree values and objects\<close>

text \<open>
  The objects that the parser allocates for a tree, each node a fresh object, in the store
  \<open>h\<close>; and the tree value that is read from a reference by following the fields (what
  \<^verbatim>\<open>print_ast\<close> and \<^verbatim>\<open>cost\<close> traverse).  \<open>saturate\<close> is the pipeline of the main program
  after parsing: the parsed tree as objects, \<^verbatim>\<open>saturation\<close>, the result read back.
  \<open>two_passes\<close> reads the tree back after each of two successive calls of \<^verbatim>\<open>rewrite\<close>.
\<close>

fun build :: "heap \<Rightarrow> ast \<Rightarrow> heap \<times> nat option" where
  "build h (Leaf v) = new_node h v None None"
| "build h (Node v l r) =
     (let (h1, pl) = build h l; (h2, pr) = build h1 r in new_node h2 v pl pr)"

partial_function (option) tree_of :: "heap \<Rightarrow> nat option \<Rightarrow> (error + ast) option" where
  "tree_of h x =
     (case x of
        None \<Rightarrow> Some (Inl AttributeError)
      | Some p \<Rightarrow>
          if left (h ! p) = None then Some (Inr (Leaf (val (h ! p))))
          else do {
            l \<leftarrow> tree_of h (left (h ! p));
            case l of
              Inl e \<Rightarrow> Some (Inl e)
            | Inr lt \<Rightarrow> do {
                r \<leftarrow> tree_of h (right (h ! p));
                case r of
                  Inl e \<Rightarrow> Some (Inl e)
                | Inr rt \<Rightarrow> Some (Inr (Node (val (h ! p)) lt rt))
              }
          })"

declare rewrite_h.simps [code] deepcopy.simps [code] ast_eq.simps [code]
  saturation_loop.simps [code] tree_of.simps [code]


definition saturate :: "ast \<Rightarrow> (error + ast) option" where
  "saturate t =
     (let (h, p) = build [] t in do {
        r \<leftarrow> saturation h p;
        case r of
          Inl (e, h') \<Rightarrow> Some (Inl e)
        | Inr (h', c) \<Rightarrow> tree_of h' c
      })"

definition two_passes :: "ast \<Rightarrow> (ast \<times> ast) option" where
  "two_passes t =
     (let (h, p) = build [] t in do {
        r1 \<leftarrow> rewrite_h h p;
        case r1 of
          Inl e \<Rightarrow> None
        | Inr (h1, p1) \<Rightarrow> do {
            t1 \<leftarrow> tree_of h1 p1;
            r2 \<leftarrow> rewrite_h h1 p1;
            case r2 of
              Inl e \<Rightarrow> None
            | Inr (h2, p2) \<Rightarrow> do {
                t2 \<leftarrow> tree_of h2 p2;
                case (t1, t2) of
                  (Inr a, Inr b) \<Rightarrow> Some (a, b)
                | _ \<Rightarrow> None
              }
          }
      })"

section \<open>Notions used in the statements\<close>

subsection \<open>Parser trees\<close>

text \<open>
  The shape of every tree the parser builds: a leaf holds a token that passed
  \<^verbatim>\<open>isdigit()\<close> or \<^verbatim>\<open>isalpha()\<close>, an operator node holds \<^verbatim>\<open>+\<close> or \<^verbatim>\<open>*\<close>.
\<close>

fun parser_tree :: "ast \<Rightarrow> bool" where
  "parser_tree (Leaf v) = (isdigit v \<or> isalpha v)"
| "parser_tree (Node v l r) = ((v = ''+'' \<or> v = ''*'') \<and> parser_tree l \<and> parser_tree r)"

text \<open>The token sequence of a printed tree (used for the round trip only).\<close>

fun toks :: "ast \<Rightarrow> string list" where
  "toks (Leaf v) = [v]"
| "toks (Node v l r) = ''('' # toks l @ [v] @ toks r @ ['')'']"

text \<open>
  The result of a parsing function on a token list with one more token in front.
\<close>

definition shift :: "error + ast \<times> nat \<Rightarrow> error + ast \<times> nat" where
  "shift r = (case r of Inl e \<Rightarrow> Inl e | Inr (n, j) \<Rightarrow> Inr (n, Suc j))"

subsection \<open>The rewrite pass as the specification words it\<close>

text \<open>
  Section 4.3 of the specification, on tree values: both children are rewritten first,
  then the seven rules are tried in the listed order and the first match is the result;
  with no match the node is returned with its rewritten children.
\<close>

fun is_literal :: "ast \<Rightarrow> bool" where
  "is_literal (Leaf v) = isdigit v"
| "is_literal (Node v l r) = False"

fun literal_val :: "ast \<Rightarrow> nat" where
  "literal_val (Leaf v) = int_of_str v"
| "literal_val (Node v l r) = 0"

fun is_sum :: "ast \<Rightarrow> bool" where
  "is_sum (Leaf v) = False"
| "is_sum (Node v l r) = (v = ''+'')"

fun distribute :: "ast \<Rightarrow> ast \<Rightarrow> ast" where
  "distribute a (Node v b c) = Node ''+'' (Node ''*'' a b) (Node ''*'' a c)"
| "distribute a (Leaf v) = Node ''*'' a (Leaf v)"

definition spec_rules :: "string \<Rightarrow> ast \<Rightarrow> ast \<Rightarrow> ast" where
  "spec_rules v l r =
     (if v = ''+'' \<and> r = Leaf ''0'' then l
      else if v = ''+'' \<and> l = Leaf ''0'' then r
      else if v = ''*'' \<and> r = Leaf ''1'' then l
      else if v = ''*'' \<and> l = Leaf ''1'' then r
      else if v = ''*'' \<and> (l = Leaf ''0'' \<or> r = Leaf ''0'') then Leaf ''0''
      else if v = ''+'' \<and> is_literal l \<and> is_literal r then
        Leaf (str_of_int (literal_val l + literal_val r))
      else if v = ''*'' \<and> is_literal l \<and> is_literal r then
        Leaf (str_of_int (literal_val l * literal_val r))
      else if v = ''*'' \<and> is_sum r then distribute l r
      else Node v l r)"

fun rewrite_spec :: "ast \<Rightarrow> ast" where
  "rewrite_spec (Leaf v) = Leaf v"
| "rewrite_spec (Node v l r) = spec_rules v (rewrite_spec l) (rewrite_spec r)"

text \<open>
  A tree on which no rule matches anywhere; the reduction relation generated by the rules;
  and a measure that every rule application decreases (a product multiplies, so that
  \<open>a * (b + c)\<close> weighs more than \<open>(a * b) + (a * c)\<close>).
\<close>

fun nf :: "ast \<Rightarrow> bool" where
  "nf (Leaf v) = True"
| "nf (Node v l r) = (nf l \<and> nf r \<and> spec_rules v l r = Node v l r)"

inductive reduces :: "ast \<Rightarrow> ast \<Rightarrow> bool" where
  red_refl: "reduces t t"
| red_rule: "reduces (Node v l r) (spec_rules v l r)"
| red_cong: "reduces l l' \<Longrightarrow> reduces r r' \<Longrightarrow> reduces (Node v l r) (Node v l' r')"
| red_trans: "reduces s t \<Longrightarrow> reduces t u \<Longrightarrow> reduces s u"

fun mu :: "ast \<Rightarrow> nat" where
  "mu (Leaf v) = 2"
| "mu (Node v l r) = (if v = ''*'' then mu l * mu r else mu l + mu r + 1)"

subsection \<open>Trees in the store\<close>

text \<open>
  \<open>repr h p t\<close>: following the fields from the object \<open>p\<close> of the store \<open>h\<close> reads the tree
  \<open>t\<close>; \<open>addrs h p t\<close> are the objects visited.  Objects may be shared; \<open>tree_shaped\<close> says
  that none is.
\<close>

fun repr :: "heap \<Rightarrow> nat \<Rightarrow> ast \<Rightarrow> bool" where
  "repr h p (Leaf v) =
     (p < length h \<and> val (h ! p) = v \<and> left (h ! p) = None \<and> right (h ! p) = None)"
| "repr h p (Node v l r) =
     (p < length h \<and> val (h ! p) = v \<and>
      (case left (h ! p) of
         None \<Rightarrow> False
       | Some pl \<Rightarrow>
          (case right (h ! p) of
             None \<Rightarrow> False
           | Some pr \<Rightarrow> repr h pl l \<and> repr h pr r)))"

fun addrs :: "heap \<Rightarrow> nat \<Rightarrow> ast \<Rightarrow> nat set" where
  "addrs h p (Leaf v) = {p}"
| "addrs h p (Node v l r) =
     {p} \<union> (case left (h ! p) of None \<Rightarrow> {} | Some pl \<Rightarrow> addrs h pl l)
         \<union> (case right (h ! p) of None \<Rightarrow> {} | Some pr \<Rightarrow> addrs h pr r)"

fun tree_shaped :: "heap \<Rightarrow> nat \<Rightarrow> ast \<Rightarrow> bool" where
  "tree_shaped h p (Leaf v) = True"
| "tree_shaped h p (Node v l r) =
     (case left (h ! p) of
        None \<Rightarrow> False
      | Some pl \<Rightarrow>
         (case right (h ! p) of
            None \<Rightarrow> False
          | Some pr \<Rightarrow>
              addrs h pl l \<inter> addrs h pr r = {} \<and> tree_shaped h pl l \<and> tree_shaped h pr r))"

fun root_val :: "ast \<Rightarrow> string" where
  "root_val (Leaf v) = v"
| "root_val (Node v l r) = v"

text \<open>
  \<open>modifies X h h'\<close>: the store grew, objects outside \<open>X\<close> are untouched, and every tree
  of the old store is, in the new store, a tree it reduces to, within its old objects
  and \<open>X\<close>.
\<close>

definition modifies :: "nat set \<Rightarrow> heap \<Rightarrow> heap \<Rightarrow> bool" where
  "modifies X h h' \<longleftrightarrow>
     length h \<le> length h' \<and>
     (\<forall>q<length h. q \<notin> X \<longrightarrow> h' ! q = h ! q) \<and>
     (\<forall>q s. repr h q s \<longrightarrow>
        (\<exists>s'. repr h' q s' \<and> reduces s s' \<and> addrs h' q s' \<subseteq> addrs h q s \<union> X))"

text \<open>
  What one call of \<^verbatim>\<open>rewrite\<close> on the object \<open>p\<close> with tree \<open>t\<close> achieves.
\<close>

definition rewrite_post :: "heap \<Rightarrow> nat \<Rightarrow> ast \<Rightarrow> heap \<Rightarrow> nat \<Rightarrow> ast \<Rightarrow> bool" where
  "rewrite_post h p t h' p' t' \<longleftrightarrow>
     repr h' p' t' \<and>
     modifies (addrs h p t \<union> {length h..}) h h' \<and>
     addrs h' p' t' \<subseteq> addrs h p t \<union> {length h..} \<and>
     (\<exists>ta. repr h' p ta \<and> reduces ta t') \<and>
     (nf t \<longrightarrow> h' = h \<and> p' = p) \<and>
     (\<not> nf t \<longrightarrow> mu t' < mu t) \<and>
     (tree_shaped h p t \<longrightarrow> t' = rewrite_spec t)"

text \<open>
  The memo table of \<^verbatim>\<open>copy.deepcopy\<close> maps an object to a copy with the same tree among
  the new objects.
\<close>

definition memo_ok :: "heap \<Rightarrow> heap \<Rightarrow> (nat \<rightharpoonup> nat) \<Rightarrow> bool" where
  "memo_ok h0 h memo \<longleftrightarrow>
     (\<forall>q y. memo q = Some y \<longrightarrow>
        (\<exists>s. repr h0 q s \<and> repr h y s \<and> addrs h y s \<subseteq> {length h0..}))"

text \<open>
  The objects from index \<open>N\<close> on refer only to one another, and the objects below \<open>N\<close>
  are kept.
\<close>

definition upper :: "nat \<Rightarrow> heap \<Rightarrow> nat option \<Rightarrow> bool" where
  "upper N h x \<longleftrightarrow> (\<forall>p. x = Some p \<longrightarrow> N \<le> p \<and> p < length h)"

definition upper_closed :: "nat \<Rightarrow> heap \<Rightarrow> bool" where
  "upper_closed N h \<longleftrightarrow>
     (\<forall>q. N \<le> q \<and> q < length h \<longrightarrow> upper N h (left (h ! q)) \<and> upper N h (right (h ! q)))"

definition keeps :: "nat \<Rightarrow> heap \<Rightarrow> heap \<Rightarrow> bool" where
  "keeps N h h' \<longleftrightarrow> length h \<le> length h' \<and> (\<forall>q<N. q < length h \<longrightarrow> h' ! q = h ! q)"

definition memo_upper :: "nat \<Rightarrow> heap \<Rightarrow> (nat \<rightharpoonup> nat) \<Rightarrow> bool" where
  "memo_upper N h memo \<longleftrightarrow> (\<forall>q. upper N h (memo q))"

text \<open>
  The store that a call leaves behind, whether it returned or raised.
\<close>

definition store_of :: "outcome \<Rightarrow> heap" where
  "store_of res = (case res of Inl (e, h) \<Rightarrow> h | Inr (h, y) \<Rightarrow> h)"

subsection \<open>Sums under products\<close>

text \<open>
  \<open>no_product_over_sum\<close>: no product node has a sum node as its right child.
  \<open>no_sum_in_right_operand\<close>: no product node has a sum node anywhere in its right operand.
\<close>

fun sum_free :: "ast \<Rightarrow> bool" where
  "sum_free (Leaf v) = True"
| "sum_free (Node v l r) = (v \<noteq> ''+'' \<and> sum_free l \<and> sum_free r)"

fun no_product_over_sum :: "ast \<Rightarrow> bool" where
  "no_product_over_sum (Leaf v) = True"
| "no_product_over_sum (Node v l r) =
     (\<not> (v = ''*'' \<and> is_sum r) \<and> no_product_over_sum l \<and> no_product_over_sum r)"

fun no_sum_in_right_operand :: "ast \<Rightarrow> bool" where
  "no_sum_in_right_operand (Leaf v) = True"
| "no_sum_in_right_operand (Node v l r) =
     ((v = ''*'' \<longrightarrow> sum_free r) \<and> no_sum_in_right_operand l \<and> no_sum_in_right_operand r)"

section \<open>Properties of the parser\<close>

subsection \<open>Totality\<close>

lemma parse_dom:
  "parse_factor_parse_term_term_loop_parse_sum_sum_loop_dom (Inl (Inl (ts, i)))"
  "parse_factor_parse_term_term_loop_parse_sum_sum_loop_dom (Inl (Inr (ts, i)))"
  "parse_factor_parse_term_term_loop_parse_sum_sum_loop_dom (Inr (Inl (ts, nd, i)))"
  "parse_factor_parse_term_term_loop_parse_sum_sum_loop_dom (Inr (Inr (Inl (ts, i))))"
  "parse_factor_parse_term_term_loop_parse_sum_sum_loop_dom (Inr (Inr (Inr (ts, nd, i))))"
proof (induct ts i and ts i and ts nd i and ts i and ts nd i
    rule: parse_factor_parse_term_term_loop_parse_sum_sum_loop.induct)
  case (1 tokens i)
  show ?case
    by (rule parse_factor_parse_term_term_loop_parse_sum_sum_loop.domintros(1))
      (use 1 in simp)
next
  case (2 tokens i)
  show ?case
    by (rule parse_factor_parse_term_term_loop_parse_sum_sum_loop.domintros(2))
      (use 2 in simp_all)
next
  case (3 tokens node i)
  show ?case
    by (rule parse_factor_parse_term_term_loop_parse_sum_sum_loop.domintros(3))
      (use 3 in simp_all)
next
  case (4 tokens i)
  show ?case
    by (rule parse_factor_parse_term_term_loop_parse_sum_sum_loop.domintros(4))
      (use 4 in simp_all)
next
  case (5 tokens node i)
  show ?case
    by (rule parse_factor_parse_term_term_loop_parse_sum_sum_loop.domintros(5))
      (use 5 in simp_all)
qed

lemma parse_factor_grows: "parse_factor ts i = Inr (n, j) \<Longrightarrow> i < j \<and> i < length ts"
  using parse_index_grows_dom(1) [OF parse_dom(1), of ts i] by simp

lemma parse_term_grows: "parse_term ts i = Inr (n, j) \<Longrightarrow> i < j \<and> i < length ts"
  using parse_index_grows_dom(2) [OF parse_dom(2), of ts i] by simp

lemma term_loop_grows: "term_loop ts nd i = Inr (n, j) \<Longrightarrow> i \<le> j"
  using parse_index_grows_dom(3) [OF parse_dom(3), of ts nd i] by simp

lemma parse_sum_grows: "parse_sum ts i = Inr (n, j) \<Longrightarrow> i < j \<and> i < length ts"
  using parse_index_grows_dom(4) [OF parse_dom(4), of ts i] by simp

lemma sum_loop_grows: "sum_loop ts nd i = Inr (n, j) \<Longrightarrow> i \<le> j"
  using parse_index_grows_dom(5) [OF parse_dom(5), of ts nd i] by simp

subsection \<open>One step of each parsing function\<close>

lemma parse_factor_Inr:
  assumes "parse_factor ts i = Inr (n, j)"
  shows "i < length ts \<and>
    ((isdigit (ts ! i) \<or> isalpha (ts ! i)) \<and> n = Leaf (ts ! i) \<and> j = i + 1 \<or>
     \<not> (isdigit (ts ! i) \<or> isalpha (ts ! i)) \<and> ts ! i = ''('' \<and>
       (\<exists>j'. parse_sum ts (i + 1) = Inr (n, j') \<and> j = j' + 1))"
  using assms
  by (subst (asm) parse_factor.simps) (auto simp: Let_def split: if_splits sum.splits prod.splits)

lemma parse_term_Inr:
  assumes "parse_term ts i = Inr (n, j)"
  shows "\<exists>nd i'. parse_factor ts i = Inr (nd, i') \<and> term_loop ts nd i' = Inr (n, j)"
  using assms
  by (subst (asm) parse_term.simps) (auto split: sum.splits prod.splits)

lemma term_loop_Inr:
  assumes "term_loop ts nd i = Inr (n, j)"
  shows "(i < length ts \<and> ts ! i = ''*'' \<and>
      (\<exists>r i'. parse_factor ts (i + 1) = Inr (r, i') \<and>
         term_loop ts (Node ''*'' nd r) i' = Inr (n, j))) \<or>
     (\<not> (i < length ts \<and> ts ! i = ''*'') \<and> n = nd \<and> j = i)"
  using assms
  by (subst (asm) term_loop.simps) (auto split: if_splits sum.splits prod.splits)

lemma parse_sum_Inr:
  assumes "parse_sum ts i = Inr (n, j)"
  shows "\<exists>nd i'. parse_term ts i = Inr (nd, i') \<and> sum_loop ts nd i' = Inr (n, j)"
  using assms
  by (subst (asm) parse_sum.simps) (auto split: sum.splits prod.splits)

lemma sum_loop_Inr:
  assumes "sum_loop ts nd i = Inr (n, j)"
  shows "(i < length ts \<and> ts ! i = ''+'' \<and>
      (\<exists>r i'. parse_term ts (i + 1) = Inr (r, i') \<and>
         sum_loop ts (Node ''+'' nd r) i' = Inr (n, j))) \<or>
     (\<not> (i < length ts \<and> ts ! i = ''+'') \<and> n = nd \<and> j = i)"
  using assms
  by (subst (asm) sum_loop.simps) (auto split: if_splits sum.splits prod.splits)


lemma parse_shape_all:
  "\<forall>n j. parse_factor ts i = Inr (n, j) \<longrightarrow> parser_tree n"
  "\<forall>n j. parse_term ts i = Inr (n, j) \<longrightarrow> parser_tree n"
  "parser_tree nd \<longrightarrow> (\<forall>n j. term_loop ts nd i = Inr (n, j) \<longrightarrow> parser_tree n)"
  "\<forall>n j. parse_sum ts i = Inr (n, j) \<longrightarrow> parser_tree n"
  "parser_tree nd \<longrightarrow> (\<forall>n j. sum_loop ts nd i = Inr (n, j) \<longrightarrow> parser_tree n)"
proof (induct ts i and ts i and ts nd i and ts i and ts nd i
    rule: parse_factor_parse_term_term_loop_parse_sum_sum_loop.induct)
  case (1 tokens i)
  show ?case
  proof (intro allI impI)
    fix n j
    assume "parse_factor tokens i = Inr (n, j)"
    from parse_factor_Inr [OF this] 1 show "parser_tree n" by auto
  qed
next
  case (2 tokens i)
  show ?case
  proof (intro allI impI)
    fix n j
    assume "parse_term tokens i = Inr (n, j)"
    from parse_term_Inr [OF this] 2 show "parser_tree n" by blast
  qed
next
  case (3 tokens node i)
  show ?case
  proof (intro allI impI)
    fix n j
    assume nd: "parser_tree node" and "term_loop tokens node i = Inr (n, j)"
    from term_loop_Inr [OF this(2)] show "parser_tree n"
    proof (elim disjE conjE exE)
      fix r i'
      assume c: "i < length tokens" "tokens ! i = ''*''"
        and f: "parse_factor tokens (i + 1) = Inr (r, i')"
        and l: "term_loop tokens (Node ''*'' node r) i' = Inr (n, j)"
      from 3(1) c f have "parser_tree r" by blast
      with 3(2) [OF conjI [OF c] f refl] nd c l show ?thesis by simp
    next
      assume "n = node"
      with nd show ?thesis by simp
    qed
  qed
next
  case (4 tokens i)
  show ?case
  proof (intro allI impI)
    fix n j
    assume "parse_sum tokens i = Inr (n, j)"
    from parse_sum_Inr [OF this] 4 show "parser_tree n" by blast
  qed
next
  case (5 tokens node i)
  show ?case
  proof (intro allI impI)
    fix n j
    assume nd: "parser_tree node" and "sum_loop tokens node i = Inr (n, j)"
    from sum_loop_Inr [OF this(2)] show "parser_tree n"
    proof (elim disjE conjE exE)
      fix r i'
      assume c: "i < length tokens" "tokens ! i = ''+''"
        and f: "parse_term tokens (i + 1) = Inr (r, i')"
        and l: "sum_loop tokens (Node ''+'' node r) i' = Inr (n, j)"
      from 5(1) c f have "parser_tree r" by blast
      with 5(2) [OF conjI [OF c] f refl] nd c l show ?thesis by simp
    next
      assume "n = node"
      with nd show ?thesis by simp
    qed
  qed
qed

lemma parse_expression_shape: "parse_expression ts = Inr t \<Longrightarrow> parser_tree t"
  using parse_shape_all(4) [of ts 0]
  by (auto simp: parse_expression_def split: sum.splits prod.splits)

lemma shift_simps [simp]: "shift (Inl e) = Inl e" "shift (Inr (n, j)) = Inr (n, Suc j)"
  by (simp_all add: shift_def)

lemma parse_shift:
  "parse_factor (x # ts) (Suc i) = shift (parse_factor ts i)"
  "parse_term (x # ts) (Suc i) = shift (parse_term ts i)"
  "term_loop (x # ts) nd (Suc i) = shift (term_loop ts nd i)"
  "parse_sum (x # ts) (Suc i) = shift (parse_sum ts i)"
  "sum_loop (x # ts) nd (Suc i) = shift (sum_loop ts nd i)"
proof (induct ts i and ts i and ts nd i and ts i and ts nd i
    rule: parse_factor_parse_term_term_loop_parse_sum_sum_loop.induct)
  case (1 tokens i)
  show ?case
    using 1 by (auto simp: parse_factor.simps [of "x # tokens" "Suc i"] parse_factor.simps [of tokens i] Let_def split: sum.splits prod.splits)
next
  case (2 tokens i)
  show ?case
    using 2 by (auto simp: parse_term.simps [of "x # tokens" "Suc i"] parse_term.simps [of tokens i] Let_def split: sum.splits prod.splits)
next
  case (3 tokens node i)
  show ?case
    using 3 by (auto simp: term_loop.simps [of "x # tokens" node "Suc i"] term_loop.simps [of tokens node i] Let_def split: sum.splits prod.splits)
next
  case (4 tokens i)
  show ?case
    using 4 by (auto simp: parse_sum.simps [of "x # tokens" "Suc i"] parse_sum.simps [of tokens i] Let_def split: sum.splits prod.splits)
next
  case (5 tokens node i)
  show ?case
    using 5 by (auto simp: sum_loop.simps [of "x # tokens" node "Suc i"] sum_loop.simps [of tokens node i] Let_def split: sum.splits prod.splits)
qed

lemma term_loop_stop:
  "\<not> (i < length ts \<and> ts ! i = ''*'') \<Longrightarrow> term_loop ts nd i = Inr (nd, i)"
  by (subst term_loop.simps) auto

lemma sum_loop_stop:
  "\<not> (i < length ts \<and> ts ! i = ''+'') \<Longrightarrow> sum_loop ts nd i = Inr (nd, i)"
  by (subst sum_loop.simps) auto

lemma loop_exit:
  "length ts \<le> i \<Longrightarrow> term_loop ts nd i = Inr (nd, i)"
  "length ts \<le> i \<Longrightarrow> sum_loop ts nd i = Inr (nd, i)"
  by (subst term_loop.simps, simp) (subst sum_loop.simps, simp)

lemma not_leaf_paren: "\<not> isdigit ''(''" "\<not> isalpha ''(''"
  by (simp_all add: isdigit_def isalpha_def is_digit_char_def is_alpha_char_def)

subsection \<open>More tokens after the tokens that were read\<close>

text \<open>
  A run that succeeded is repeated on a longer token list, provided the first added token
  is not an operator and the run stayed within the old tokens or only one token is added;
  and a run that succeeds on a list whose last token can neither start a factor nor
  continue a loop never reads that token.
\<close>

lemma parse_append:
  assumes tok: "tok \<noteq> ''*''" "tok \<noteq> ''+''"
  shows
  "\<forall>n j. parse_factor ts i = Inr (n, j) \<longrightarrow> j \<le> length ts \<or> rest = [] \<longrightarrow>
     parse_factor (ts @ tok # rest) i = Inr (n, j)"
  "\<forall>n j. parse_term ts i = Inr (n, j) \<longrightarrow> j \<le> length ts \<or> rest = [] \<longrightarrow>
     parse_term (ts @ tok # rest) i = Inr (n, j)"
  "\<forall>n j. term_loop ts nd i = Inr (n, j) \<longrightarrow> j \<le> length ts \<or> rest = [] \<longrightarrow>
     term_loop (ts @ tok # rest) nd i = Inr (n, j)"
  "\<forall>n j. parse_sum ts i = Inr (n, j) \<longrightarrow> j \<le> length ts \<or> rest = [] \<longrightarrow>
     parse_sum (ts @ tok # rest) i = Inr (n, j)"
  "\<forall>n j. sum_loop ts nd i = Inr (n, j) \<longrightarrow> j \<le> length ts \<or> rest = [] \<longrightarrow>
     sum_loop (ts @ tok # rest) nd i = Inr (n, j)"
proof (induct ts i and ts i and ts nd i and ts i and ts nd i
    rule: parse_factor_parse_term_term_loop_parse_sum_sum_loop.induct)
  case (1 tokens i)
  show ?case
  proof (intro allI impI)
    fix n j
    assume r: "parse_factor tokens i = Inr (n, j)" and le: "j \<le> length tokens \<or> rest = []"
    from parse_factor_Inr [OF r] have lt: "i < length tokens" by simp
    then have nth: "(tokens @ tok # rest) ! i = tokens ! i" by (simp add: nth_append)
    from parse_factor_Inr [OF r] consider
      (leaf) "isdigit (tokens ! i) \<or> isalpha (tokens ! i)" "n = Leaf (tokens ! i)" "j = i + 1"
      | (paren) j' where "\<not> (isdigit (tokens ! i) \<or> isalpha (tokens ! i))"
          "tokens ! i = ''(''" "parse_sum tokens (i + 1) = Inr (n, j')" "j = j' + 1"
      by blast
    then show "parse_factor (tokens @ tok # rest) i = Inr (n, j)"
    proof cases
      case leaf
      with lt nth show ?thesis
        by (subst parse_factor.simps) simp
    next
      case paren
      note a = paren(1,2) and s = paren(3) and j = paren(4)
      from j le have "j' \<le> length tokens \<or> rest = []" by auto
      with 1 [OF lt refl a] s
      have "parse_sum (tokens @ tok # rest) (i + 1) = Inr (n, j')" by auto
      with lt nth a j show ?thesis
        by (subst parse_factor.simps) simp
    qed
  qed
next
  case (2 tokens i)
  show ?case
  proof (intro allI impI)
    fix n j
    assume r: "parse_term tokens i = Inr (n, j)" and le: "j \<le> length tokens \<or> rest = []"
    from parse_term_Inr [OF r] obtain nd i' where
      f: "parse_factor tokens i = Inr (nd, i')" and l: "term_loop tokens nd i' = Inr (n, j)"
      by blast
    from term_loop_grows [OF l] le have "i' \<le> length tokens \<or> rest = []" by auto
    with 2(1) f have f': "parse_factor (tokens @ tok # rest) i = Inr (nd, i')" by blast
    from 2(2) [OF f refl] l le
    have "term_loop (tokens @ tok # rest) nd i' = Inr (n, j)" by blast
    with f' show "parse_term (tokens @ tok # rest) i = Inr (n, j)"
      by (subst parse_term.simps) simp
  qed
next
  case (3 tokens node i)
  show ?case
  proof (intro allI impI)
    fix n j
    assume r: "term_loop tokens node i = Inr (n, j)" and le: "j \<le> length tokens \<or> rest = []"
    from term_loop_Inr [OF r]
    show "term_loop (tokens @ tok # rest) node i = Inr (n, j)"
    proof (elim conjE disjE exE)
      fix rt i'
      assume c: "i < length tokens" "tokens ! i = ''*''"
        and f: "parse_factor tokens (i + 1) = Inr (rt, i')"
        and l: "term_loop tokens (Node ''*'' node rt) i' = Inr (n, j)"
      from c have nth: "(tokens @ tok # rest) ! i = ''*''" by (simp add: nth_append)
      from term_loop_grows [OF l] le have "i' \<le> length tokens \<or> rest = []" by auto
      with 3(1) [OF conjI [OF c]] f
      have f': "parse_factor (tokens @ tok # rest) (i + 1) = Inr (rt, i')" by blast
      from 3(2) [OF conjI [OF c] f refl] l le c
      have "term_loop (tokens @ tok # rest) (Node ''*'' node rt) i' = Inr (n, j)" by auto
      with f' c nth show ?thesis
        by (subst term_loop.simps) simp
    next
      assume c: "\<not> (i < length tokens \<and> tokens ! i = ''*'')" and e: "n = node" "j = i"
      from c e le tok have "\<not> (i < length (tokens @ tok # rest) \<and> (tokens @ tok # rest) ! i = ''*'')"
        by (cases "i < length tokens") (auto simp: nth_append)
      with e show ?thesis
        by (simp add: term_loop_stop)
    qed
  qed
next
  case (4 tokens i)
  show ?case
  proof (intro allI impI)
    fix n j
    assume r: "parse_sum tokens i = Inr (n, j)" and le: "j \<le> length tokens \<or> rest = []"
    from parse_sum_Inr [OF r] obtain nd i' where
      f: "parse_term tokens i = Inr (nd, i')" and l: "sum_loop tokens nd i' = Inr (n, j)"
      by blast
    from sum_loop_grows [OF l] le have "i' \<le> length tokens \<or> rest = []" by auto
    with 4(1) f have f': "parse_term (tokens @ tok # rest) i = Inr (nd, i')" by blast
    from 4(2) [OF f refl] l le
    have "sum_loop (tokens @ tok # rest) nd i' = Inr (n, j)" by blast
    with f' show "parse_sum (tokens @ tok # rest) i = Inr (n, j)"
      by (subst parse_sum.simps) simp
  qed
next
  case (5 tokens node i)
  show ?case
  proof (intro allI impI)
    fix n j
    assume r: "sum_loop tokens node i = Inr (n, j)" and le: "j \<le> length tokens \<or> rest = []"
    from sum_loop_Inr [OF r]
    show "sum_loop (tokens @ tok # rest) node i = Inr (n, j)"
    proof (elim conjE disjE exE)
      fix rt i'
      assume c: "i < length tokens" "tokens ! i = ''+''"
        and f: "parse_term tokens (i + 1) = Inr (rt, i')"
        and l: "sum_loop tokens (Node ''+'' node rt) i' = Inr (n, j)"
      from c have nth: "(tokens @ tok # rest) ! i = ''+''" by (simp add: nth_append)
      from sum_loop_grows [OF l] le have "i' \<le> length tokens \<or> rest = []" by auto
      with 5(1) [OF conjI [OF c]] f
      have f': "parse_term (tokens @ tok # rest) (i + 1) = Inr (rt, i')" by blast
      from 5(2) [OF conjI [OF c] f refl] l le c
      have "sum_loop (tokens @ tok # rest) (Node ''+'' node rt) i' = Inr (n, j)" by auto
      with f' c nth show ?thesis
        by (subst sum_loop.simps) simp
    next
      assume c: "\<not> (i < length tokens \<and> tokens ! i = ''+'')" and e: "n = node" "j = i"
      from c e le tok have "\<not> (i < length (tokens @ tok # rest) \<and> (tokens @ tok # rest) ! i = ''+'')"
        by (cases "i < length tokens") (auto simp: nth_append)
      with e show ?thesis
        by (simp add: sum_loop_stop)
    qed
  qed
qed

lemma parse_truncate:
  assumes x: "\<not> isdigit x" "\<not> isalpha x" "x \<noteq> ''(''" "x \<noteq> ''*''" "x \<noteq> ''+''"
  shows
  "\<forall>n j. parse_factor (ts @ [x]) i = Inr (n, j) \<longrightarrow> parse_factor ts i = Inr (n, j)"
  "\<forall>n j. parse_term (ts @ [x]) i = Inr (n, j) \<longrightarrow> parse_term ts i = Inr (n, j)"
  "\<forall>n j. term_loop (ts @ [x]) nd i = Inr (n, j) \<longrightarrow> term_loop ts nd i = Inr (n, j)"
  "\<forall>n j. parse_sum (ts @ [x]) i = Inr (n, j) \<longrightarrow> parse_sum ts i = Inr (n, j)"
  "\<forall>n j. sum_loop (ts @ [x]) nd i = Inr (n, j) \<longrightarrow> sum_loop ts nd i = Inr (n, j)"
proof (induct ts i and ts i and ts nd i and ts i and ts nd i
    rule: parse_factor_parse_term_term_loop_parse_sum_sum_loop.induct)
  case (1 tokens i)
  show ?case
  proof (intro allI impI)
    fix n j
    assume r: "parse_factor (tokens @ [x]) i = Inr (n, j)"
    from parse_factor_Inr [OF r] x have lt: "i < length tokens"
      by (cases "i = length tokens") auto
    then have nth: "(tokens @ [x]) ! i = tokens ! i" by (simp add: nth_append)
    from parse_factor_Inr [OF r] nth consider
      (leaf) "isdigit (tokens ! i) \<or> isalpha (tokens ! i)" "n = Leaf (tokens ! i)" "j = i + 1"
      | (paren) j' where "\<not> (isdigit (tokens ! i) \<or> isalpha (tokens ! i))"
          "tokens ! i = ''(''" "parse_sum (tokens @ [x]) (i + 1) = Inr (n, j')" "j = j' + 1"
      by auto
    then show "parse_factor tokens i = Inr (n, j)"
    proof cases
      case leaf
      with lt show ?thesis
        by (subst parse_factor.simps) simp
    next
      case paren
      note a = paren(1,2) and s = paren(3) and j = paren(4)
      from 1 [OF lt refl a] s
      have "parse_sum tokens (i + 1) = Inr (n, j')" by simp
      with lt a j show ?thesis
        by (subst parse_factor.simps) simp
    qed
  qed
next
  case (2 tokens i)
  show ?case
  proof (intro allI impI)
    fix n j
    assume r: "parse_term (tokens @ [x]) i = Inr (n, j)"
    from parse_term_Inr [OF r] obtain nd i' where
      f: "parse_factor (tokens @ [x]) i = Inr (nd, i')"
      and l: "term_loop (tokens @ [x]) nd i' = Inr (n, j)"
      by blast
    from 2(1) f have f': "parse_factor tokens i = Inr (nd, i')" by blast
    from 2(2) [OF f' refl] l have "term_loop tokens nd i' = Inr (n, j)" by blast
    with f' show "parse_term tokens i = Inr (n, j)"
      by (subst parse_term.simps) simp
  qed
next
  case (3 tokens node i)
  show ?case
  proof (intro allI impI)
    fix n j
    assume r: "term_loop (tokens @ [x]) node i = Inr (n, j)"
    from term_loop_Inr [OF r]
    show "term_loop tokens node i = Inr (n, j)"
    proof (elim conjE disjE exE)
      fix rt i'
      assume c': "i < length (tokens @ [x])" "(tokens @ [x]) ! i = ''*''"
        and f: "parse_factor (tokens @ [x]) (i + 1) = Inr (rt, i')"
        and l: "term_loop (tokens @ [x]) (Node ''*'' node rt) i' = Inr (n, j)"
      from c' x have c: "i < length tokens" "tokens ! i = ''*''"
        by (cases "i = length tokens"; simp add: nth_append)+
      from 3(1) [OF conjI [OF c]] f
      have f': "parse_factor tokens (i + 1) = Inr (rt, i')" by blast
      from 3(2) [OF conjI [OF c] f' refl] l c
      have "term_loop tokens (Node ''*'' node rt) i' = Inr (n, j)" by simp
      with f' c show ?thesis
        by (subst term_loop.simps) simp
    next
      assume c: "\<not> (i < length (tokens @ [x]) \<and> (tokens @ [x]) ! i = ''*'')"
        and e: "n = node" "j = i"
      from c have "\<not> (i < length tokens \<and> tokens ! i = ''*'')"
        by (auto simp: nth_append)
      with e show ?thesis
        by (simp add: term_loop_stop)
    qed
  qed
next
  case (4 tokens i)
  show ?case
  proof (intro allI impI)
    fix n j
    assume r: "parse_sum (tokens @ [x]) i = Inr (n, j)"
    from parse_sum_Inr [OF r] obtain nd i' where
      f: "parse_term (tokens @ [x]) i = Inr (nd, i')"
      and l: "sum_loop (tokens @ [x]) nd i' = Inr (n, j)"
      by blast
    from 4(1) f have f': "parse_term tokens i = Inr (nd, i')" by blast
    from 4(2) [OF f' refl] l have "sum_loop tokens nd i' = Inr (n, j)" by blast
    with f' show "parse_sum tokens i = Inr (n, j)"
      by (subst parse_sum.simps) simp
  qed
next
  case (5 tokens node i)
  show ?case
  proof (intro allI impI)
    fix n j
    assume r: "sum_loop (tokens @ [x]) node i = Inr (n, j)"
    from sum_loop_Inr [OF r]
    show "sum_loop tokens node i = Inr (n, j)"
    proof (elim conjE disjE exE)
      fix rt i'
      assume c': "i < length (tokens @ [x])" "(tokens @ [x]) ! i = ''+''"
        and f: "parse_term (tokens @ [x]) (i + 1) = Inr (rt, i')"
        and l: "sum_loop (tokens @ [x]) (Node ''+'' node rt) i' = Inr (n, j)"
      from c' x have c: "i < length tokens" "tokens ! i = ''+''"
        by (cases "i = length tokens"; simp add: nth_append)+
      from 5(1) [OF conjI [OF c]] f
      have f': "parse_term tokens (i + 1) = Inr (rt, i')" by blast
      from 5(2) [OF conjI [OF c] f' refl] l c
      have "sum_loop tokens (Node ''+'' node rt) i' = Inr (n, j)" by simp
      with f' c show ?thesis
        by (subst sum_loop.simps) simp
    next
      assume c: "\<not> (i < length (tokens @ [x]) \<and> (tokens @ [x]) ! i = ''+'')"
        and e: "n = node" "j = i"
      from c have "\<not> (i < length tokens \<and> tokens ! i = ''+'')"
        by (auto simp: nth_append)
      with e show ?thesis
        by (simp add: sum_loop_stop)
    qed
  qed
qed

lemma parse_expression_snoc:
  assumes "\<not> isdigit x" "\<not> isalpha x" "x \<noteq> ''(''" "x \<noteq> ''*''" "x \<noteq> ''+''"
  shows "parse_expression (w @ [x]) = Inr t \<longleftrightarrow> parse_expression w = Inr t"
proof
  assume "parse_expression (w @ [x]) = Inr t"
  then obtain j where "parse_sum (w @ [x]) 0 = Inr (t, j)"
    by (auto simp: parse_expression_def split: sum.splits)
  with parse_truncate(4) [OF assms, of w 0] have "parse_sum w 0 = Inr (t, j)" by blast
  then show "parse_expression w = Inr t" by (simp add: parse_expression_def)
next
  assume "parse_expression w = Inr t"
  then obtain j where "parse_sum w 0 = Inr (t, j)"
    by (auto simp: parse_expression_def split: sum.splits)
  with parse_append(4) [OF assms(4,5), of w 0 "[]"] have "parse_sum (w @ [x]) 0 = Inr (t, j)"
    by blast
  then show "parse_expression (w @ [x]) = Inr t" by (simp add: parse_expression_def)
qed

lemma parse_factor_error:
  assumes "\<not> isdigit tok" "\<not> isalpha tok" "tok \<noteq> ''(''" "i < length ts" "ts ! i = tok"
  shows "parse_factor ts i = Inl (ValueError (''Unexpected token: '' @ tok))"
  using assms by (subst parse_factor.simps) simp

lemma minus_slash_not_leaf:
  assumes "tok = ''-'' \<or> tok = ''/''"
  shows "\<not> isdigit tok" "\<not> isalpha tok" "tok \<noteq> ''(''" "tok \<noteq> ''*''" "tok \<noteq> ''+''"
  using assms by (auto simp: isdigit_def isalpha_def is_digit_char_def is_alpha_char_def)

lemma parse_group:
  assumes "i < length ts" "ts ! i = ''(''"
  shows "parse_factor ts i =
    (case parse_sum ts (Suc i) of Inl e \<Rightarrow> Inl e | Inr (n, j) \<Rightarrow> Inr (n, Suc j))"
  using assms
  by (subst parse_factor.simps) (simp add: not_leaf_paren split: sum.splits prod.splits)

text \<open>
  An operator and then a token that cannot start a factor, added right where a successful
  run ended: the loop that would have stopped there goes on and fails at the added token.
\<close>

lemma parse_operand_error:
  assumes tok: "\<not> isdigit tok" "\<not> isalpha tok" "tok \<noteq> ''(''"
    and op: "op = ''+'' \<or> op = ''*''"
  shows
  "\<forall>n j. parse_factor ts i = Inr (n, j) \<longrightarrow> j \<le> length ts \<longrightarrow>
     parse_factor (ts @ op # tok # rest) i = Inr (n, j)"
  "\<forall>n j. parse_term ts i = Inr (n, j) \<longrightarrow> j \<le> length ts \<longrightarrow>
     parse_term (ts @ op # tok # rest) i =
       (if j = length ts \<and> op = ''*'' then Inl (ValueError (''Unexpected token: '' @ tok))
        else Inr (n, j))"
  "\<forall>n j. term_loop ts nd i = Inr (n, j) \<longrightarrow> j \<le> length ts \<longrightarrow>
     term_loop (ts @ op # tok # rest) nd i =
       (if j = length ts \<and> op = ''*'' then Inl (ValueError (''Unexpected token: '' @ tok))
        else Inr (n, j))"
  "\<forall>n j. parse_sum ts i = Inr (n, j) \<longrightarrow> j \<le> length ts \<longrightarrow>
     parse_sum (ts @ op # tok # rest) i =
       (if j = length ts then Inl (ValueError (''Unexpected token: '' @ tok))
        else Inr (n, j))"
  "\<forall>n j. sum_loop ts nd i = Inr (n, j) \<longrightarrow> j \<le> length ts \<longrightarrow>
     sum_loop (ts @ op # tok # rest) nd i =
       (if j = length ts \<and> (op = ''+'' \<or> i < j)
        then Inl (ValueError (''Unexpected token: '' @ tok))
        else Inr (n, j))"
proof (induct ts i and ts i and ts nd i and ts i and ts nd i
    rule: parse_factor_parse_term_term_loop_parse_sum_sum_loop.induct)
  case (1 tokens i)
  let ?ext = "tokens @ op # tok # rest"
  show ?case
  proof (intro allI impI)
    fix n j
    assume r: "parse_factor tokens i = Inr (n, j)" and le: "j \<le> length tokens"
    from parse_factor_Inr [OF r] have lt: "i < length tokens" by simp
    then have nth: "?ext ! i = tokens ! i" by (simp add: nth_append)
    from parse_factor_Inr [OF r] consider
      (leaf) "isdigit (tokens ! i) \<or> isalpha (tokens ! i)" "n = Leaf (tokens ! i)" "j = i + 1"
      | (paren) j' where "\<not> (isdigit (tokens ! i) \<or> isalpha (tokens ! i))"
          "tokens ! i = ''(''" "parse_sum tokens (i + 1) = Inr (n, j')" "j = j' + 1"
      by blast
    then show "parse_factor ?ext i = Inr (n, j)"
    proof cases
      case leaf
      with lt nth show ?thesis
        by (subst parse_factor.simps) simp
    next
      case paren
      note a = paren(1,2) and s = paren(3) and j = paren(4)
      from j le have "j' \<le> length tokens" "j' \<noteq> length tokens" by auto
      with 1 [OF lt refl a] s
      have "parse_sum ?ext (i + 1) = Inr (n, j')" by auto
      with lt nth a j show ?thesis
        by (subst parse_factor.simps) simp
    qed
  qed
next
  case (2 tokens i)
  let ?ext = "tokens @ op # tok # rest"
  show ?case
  proof (intro allI impI)
    fix n j
    assume r: "parse_term tokens i = Inr (n, j)" and le: "j \<le> length tokens"
    from parse_term_Inr [OF r] obtain nd i' where
      f: "parse_factor tokens i = Inr (nd, i')" and l: "term_loop tokens nd i' = Inr (n, j)"
      by blast
    from term_loop_grows [OF l] le have "i' \<le> length tokens" by simp
    with 2(1) f have f': "parse_factor ?ext i = Inr (nd, i')" by blast
    from 2(2) [OF f refl] l le
    have "term_loop ?ext nd i' =
       (if j = length tokens \<and> op = ''*'' then Inl (ValueError (''Unexpected token: '' @ tok))
        else Inr (n, j))" by blast
    with f' show "parse_term ?ext i =
       (if j = length tokens \<and> op = ''*'' then Inl (ValueError (''Unexpected token: '' @ tok))
        else Inr (n, j))"
      by (subst parse_term.simps) simp
  qed
next
  case (3 tokens node i)
  let ?ext = "tokens @ op # tok # rest"
  let ?E = "Inl (ValueError (''Unexpected token: '' @ tok)) :: error + ast \<times> nat"
  show ?case
  proof (intro allI impI)
    fix n j
    assume r: "term_loop tokens node i = Inr (n, j)" and le: "j \<le> length tokens"
    from term_loop_Inr [OF r]
    show "term_loop ?ext node i = (if j = length tokens \<and> op = ''*'' then ?E else Inr (n, j))"
    proof (elim conjE disjE exE)
      fix rt i'
      assume c: "i < length tokens" "tokens ! i = ''*''"
        and f: "parse_factor tokens (i + 1) = Inr (rt, i')"
        and l: "term_loop tokens (Node ''*'' node rt) i' = Inr (n, j)"
      from c have nth: "?ext ! i = ''*''" by (simp add: nth_append)
      from term_loop_grows [OF l] le have "i' \<le> length tokens" by simp
      with 3(1) [OF conjI [OF c]] f
      have f': "parse_factor ?ext (i + 1) = Inr (rt, i')" by blast
      from 3(2) [OF conjI [OF c] f refl] l le c
      have "term_loop ?ext (Node ''*'' node rt) i' =
          (if j = length tokens \<and> op = ''*'' then ?E else Inr (n, j))" by auto
      with f' c nth show ?thesis
        by (subst term_loop.simps) simp
    next
      assume c: "\<not> (i < length tokens \<and> tokens ! i = ''*'')" and e: "n = node" "j = i"
      show ?thesis
      proof (cases "i = length tokens")
        case False
        with c e le have "\<not> (i < length ?ext \<and> ?ext ! i = ''*'')"
          by (auto simp: nth_append)
        with e False show ?thesis
          by (simp add: term_loop_stop)
      next
        case True
        show ?thesis
        proof (cases "op = ''*''")
          case star: True
          from True tok have "parse_factor ?ext (i + 1) = ?E"
            by (intro parse_factor_error) (simp_all add: nth_append)
          with True star e show ?thesis
            by (subst term_loop.simps) (simp add: nth_append)
        next
          case False
          with True have "\<not> (i < length ?ext \<and> ?ext ! i = ''*'')"
            by (simp add: nth_append)
          with e False show ?thesis
            by (simp add: term_loop_stop)
        qed
      qed
    qed
  qed
next
  case (4 tokens i)
  let ?ext = "tokens @ op # tok # rest"
  let ?E = "Inl (ValueError (''Unexpected token: '' @ tok)) :: error + ast \<times> nat"
  show ?case
  proof (intro allI impI)
    fix n j
    assume r: "parse_sum tokens i = Inr (n, j)" and le: "j \<le> length tokens"
    from parse_sum_Inr [OF r] obtain nd i' where
      f: "parse_term tokens i = Inr (nd, i')" and l: "sum_loop tokens nd i' = Inr (n, j)"
      by blast
    from sum_loop_grows [OF l] le have i': "i' \<le> j" "i' \<le> length tokens" by simp_all
    with 4(1) f have f': "parse_term ?ext i =
        (if i' = length tokens \<and> op = ''*'' then ?E else Inr (nd, i'))" by blast
    from 4(2) [OF f refl] l le
    have l': "sum_loop ?ext nd i' =
        (if j = length tokens \<and> (op = ''+'' \<or> i' < j) then ?E else Inr (n, j))" by blast
    show "parse_sum ?ext i = (if j = length tokens then ?E else Inr (n, j))"
    proof (cases "i' = length tokens \<and> op = ''*''")
      case True
      with i' le have "j = length tokens" by simp
      with f' True show ?thesis
        by (subst parse_sum.simps) simp
    next
      case False
      with op i' have "j = length tokens \<Longrightarrow> op = ''+'' \<or> i' < j" by auto
      with f' l' False show ?thesis
        by (subst parse_sum.simps) auto
    qed
  qed
next
  case (5 tokens node i)
  let ?ext = "tokens @ op # tok # rest"
  let ?E = "Inl (ValueError (''Unexpected token: '' @ tok)) :: error + ast \<times> nat"
  show ?case
  proof (intro allI impI)
    fix n j
    assume r: "sum_loop tokens node i = Inr (n, j)" and le: "j \<le> length tokens"
    from sum_loop_Inr [OF r]
    show "sum_loop ?ext node i =
        (if j = length tokens \<and> (op = ''+'' \<or> i < j) then ?E else Inr (n, j))"
    proof (elim conjE disjE exE)
      fix rt i'
      assume c: "i < length tokens" "tokens ! i = ''+''"
        and f: "parse_term tokens (i + 1) = Inr (rt, i')"
        and l: "sum_loop tokens (Node ''+'' node rt) i' = Inr (n, j)"
      from c have nth: "?ext ! i = ''+''" by (simp add: nth_append)
      from sum_loop_grows [OF l] le have i': "i' \<le> j" "i' \<le> length tokens" by simp_all
      from parse_term_grows [OF f] have ii': "i < i'" by simp
      from 5(1) [OF conjI [OF c]] f i'
      have f': "parse_term ?ext (i + 1) =
          (if i' = length tokens \<and> op = ''*'' then ?E else Inr (rt, i'))" by blast
      from 5(2) [OF conjI [OF c] f refl] l le c
      have l': "sum_loop ?ext (Node ''+'' node rt) i' =
          (if j = length tokens \<and> (op = ''+'' \<or> i' < j) then ?E else Inr (n, j))" by auto
      show ?thesis
      proof (cases "i' = length tokens \<and> op = ''*''")
        case True
        with i' le ii' have "j = length tokens" "i < j" by simp_all
        with f' True c nth show ?thesis
          by (subst sum_loop.simps) simp
      next
        case False
        with op i' ii' have "j = length tokens \<Longrightarrow> op = ''+'' \<or> i' < j" "i < j" by auto
        with f' l' False c nth show ?thesis
          by (subst sum_loop.simps) auto
      qed
    next
      assume c: "\<not> (i < length tokens \<and> tokens ! i = ''+'')" and e: "n = node" "j = i"
      show ?thesis
      proof (cases "i = length tokens")
        case False
        with c e le have "\<not> (i < length ?ext \<and> ?ext ! i = ''+'')"
          by (auto simp: nth_append)
        with e False show ?thesis
          by (simp add: sum_loop_stop)
      next
        case True
        show ?thesis
        proof (cases "op = ''+''")
          case plus: True
          from True tok have "parse_factor ?ext (i + 1) = ?E"
            by (intro parse_factor_error) (simp_all add: nth_append)
          then have "parse_term ?ext (i + 1) = ?E"
            by (subst parse_term.simps) simp
          with True plus e show ?thesis
            by (subst sum_loop.simps) (simp add: nth_append)
        next
          case False
          with True have "\<not> (i < length ?ext \<and> ?ext ! i = ''+'')"
            by (simp add: nth_append)
          with e False show ?thesis
            by (simp add: sum_loop_stop)
        qed
      qed
    qed
  qed
qed

text \<open>
  A run that ends with \<^verbatim>\<open>IndexError\<close>, repeated with more tokens after the old ones, the
  first of which can neither start a factor nor continue a loop, ends with
  \<^verbatim>\<open>ValueError\<close> at that token.
\<close>

lemma parse_factor_Inl:
  assumes "parse_factor ts i = Inl IndexError"
  shows "length ts \<le> i \<or> (i < length ts \<and> ts ! i = ''('' \<and>
    \<not> (isdigit (ts ! i) \<or> isalpha (ts ! i)) \<and> parse_sum ts (i + 1) = Inl IndexError)"
  using assms
  by (subst (asm) parse_factor.simps) (auto simp: Let_def split: if_splits sum.splits prod.splits)

lemma parse_term_Inl:
  assumes "parse_term ts i = Inl e"
  shows "parse_factor ts i = Inl e \<or>
    (\<exists>nd i'. parse_factor ts i = Inr (nd, i') \<and> term_loop ts nd i' = Inl e)"
  using assms
  by (subst (asm) parse_term.simps) (auto split: sum.splits prod.splits)

lemma term_loop_Inl:
  assumes "term_loop ts nd i = Inl e"
  shows "i < length ts \<and> ts ! i = ''*'' \<and>
    (parse_factor ts (i + 1) = Inl e \<or>
     (\<exists>r i'. parse_factor ts (i + 1) = Inr (r, i') \<and>
        term_loop ts (Node ''*'' nd r) i' = Inl e))"
  using assms
  by (subst (asm) term_loop.simps) (auto split: if_splits sum.splits prod.splits)

lemma parse_sum_Inl:
  assumes "parse_sum ts i = Inl e"
  shows "parse_term ts i = Inl e \<or>
    (\<exists>nd i'. parse_term ts i = Inr (nd, i') \<and> sum_loop ts nd i' = Inl e)"
  using assms
  by (subst (asm) parse_sum.simps) (auto split: sum.splits prod.splits)

lemma sum_loop_Inl:
  assumes "sum_loop ts nd i = Inl e"
  shows "i < length ts \<and> ts ! i = ''+'' \<and>
    (parse_term ts (i + 1) = Inl e \<or>
     (\<exists>r i'. parse_term ts (i + 1) = Inr (r, i') \<and>
        sum_loop ts (Node ''+'' nd r) i' = Inl e))"
  using assms
  by (subst (asm) sum_loop.simps) (auto split: if_splits sum.splits prod.splits)

lemma parse_factor_expected:
  assumes tok: "\<not> isdigit tok" "\<not> isalpha tok" "tok \<noteq> ''(''" "tok \<noteq> ''*''" "tok \<noteq> ''+''"
  shows
  "parse_factor ts i = Inl IndexError \<longrightarrow> i \<le> length ts \<longrightarrow>
     parse_factor (ts @ tok # rest) i = Inl (ValueError (''Unexpected token: '' @ tok))"
  "parse_term ts i = Inl IndexError \<longrightarrow> i \<le> length ts \<longrightarrow>
     parse_term (ts @ tok # rest) i = Inl (ValueError (''Unexpected token: '' @ tok))"
  "term_loop ts nd i = Inl IndexError \<longrightarrow>
     term_loop (ts @ tok # rest) nd i = Inl (ValueError (''Unexpected token: '' @ tok))"
  "parse_sum ts i = Inl IndexError \<longrightarrow> i \<le> length ts \<longrightarrow>
     parse_sum (ts @ tok # rest) i = Inl (ValueError (''Unexpected token: '' @ tok))"
  "sum_loop ts nd i = Inl IndexError \<longrightarrow>
     sum_loop (ts @ tok # rest) nd i = Inl (ValueError (''Unexpected token: '' @ tok))"
proof (induct ts i and ts i and ts nd i and ts i and ts nd i
    rule: parse_factor_parse_term_term_loop_parse_sum_sum_loop.induct)
  case (1 tokens i)
  let ?ext = "tokens @ tok # rest"
  let ?E = "Inl (ValueError (''Unexpected token: '' @ tok)) :: error + ast \<times> nat"
  show ?case
  proof (intro impI)
    assume r: "parse_factor tokens i = Inl IndexError" and le: "i \<le> length tokens"
    from parse_factor_Inl [OF r] le consider
      (last) "i = length tokens"
      | (paren) "i < length tokens" "tokens ! i = ''(''"
          "\<not> (isdigit (tokens ! i) \<or> isalpha (tokens ! i))"
          "parse_sum tokens (i + 1) = Inl IndexError"
      by fastforce
    then show "parse_factor ?ext i = ?E"
    proof cases
      case last
      with tok show ?thesis
        by (intro parse_factor_error) (simp_all add: nth_append)
    next
      case paren
      from 1 [OF paren(1) refl paren(3,2)] paren(1,4)
      have "parse_sum ?ext (i + 1) = ?E" by simp
      with paren(1,2,3) show ?thesis
        by (subst parse_factor.simps) (simp add: nth_append)
    qed
  qed
next
  case (2 tokens i)
  let ?ext = "tokens @ tok # rest"
  let ?E = "Inl (ValueError (''Unexpected token: '' @ tok)) :: error + ast \<times> nat"
  show ?case
  proof (intro impI)
    assume r: "parse_term tokens i = Inl IndexError" and le: "i \<le> length tokens"
    from parse_term_Inl [OF r] consider
      (factor) "parse_factor tokens i = Inl IndexError"
      | (loop) nd i' where "parse_factor tokens i = Inr (nd, i')"
          "term_loop tokens nd i' = Inl IndexError"
      by blast
    then show "parse_term ?ext i = ?E"
    proof cases
      case factor
      with 2(1) le have "parse_factor ?ext i = ?E" by blast
      then show ?thesis
        by (subst parse_term.simps) simp
    next
      case loop
      from term_loop_Inl [OF loop(2)] have "i' \<le> length tokens" by simp
      with parse_append(1) [OF tok(4,5), of tokens i rest] loop(1)
      have f': "parse_factor ?ext i = Inr (nd, i')" by blast
      from 2(2) [OF loop(1) refl] loop(2) have "term_loop ?ext nd i' = ?E" by blast
      with f' show ?thesis
        by (subst parse_term.simps) simp
    qed
  qed
next
  case (3 tokens node i)
  let ?ext = "tokens @ tok # rest"
  let ?E = "Inl (ValueError (''Unexpected token: '' @ tok)) :: error + ast \<times> nat"
  show ?case
  proof (intro impI)
    assume r: "term_loop tokens node i = Inl IndexError"
    from term_loop_Inl [OF r] have c: "i < length tokens" "tokens ! i = ''*''" by simp_all
    then have nth: "?ext ! i = ''*''" "i < length ?ext" by (simp_all add: nth_append)
    from term_loop_Inl [OF r] consider
      (factor) "parse_factor tokens (i + 1) = Inl IndexError"
      | (loop) rt i' where "parse_factor tokens (i + 1) = Inr (rt, i')"
          "term_loop tokens (Node ''*'' node rt) i' = Inl IndexError"
      by blast
    then show "term_loop ?ext node i = ?E"
    proof cases
      case factor
      with 3(1) [OF conjI [OF c]] c have "parse_factor ?ext (i + 1) = ?E" by simp
      with nth show ?thesis
        by (subst term_loop.simps) simp
    next
      case loop
      from term_loop_Inl [OF loop(2)] have "i' \<le> length tokens" by simp
      with parse_append(1) [OF tok(4,5), of tokens "i + 1" rest] loop(1)
      have f': "parse_factor ?ext (i + 1) = Inr (rt, i')" by blast
      from 3(2) [OF conjI [OF c] loop(1) refl] loop(2) c
      have "term_loop ?ext (Node ''*'' node rt) i' = ?E" by simp
      with f' nth show ?thesis
        by (subst term_loop.simps) simp
    qed
  qed
next
  case (4 tokens i)
  let ?ext = "tokens @ tok # rest"
  let ?E = "Inl (ValueError (''Unexpected token: '' @ tok)) :: error + ast \<times> nat"
  show ?case
  proof (intro impI)
    assume r: "parse_sum tokens i = Inl IndexError" and le: "i \<le> length tokens"
    from parse_sum_Inl [OF r] consider
      (operand) "parse_term tokens i = Inl IndexError"
      | (loop) nd i' where "parse_term tokens i = Inr (nd, i')"
          "sum_loop tokens nd i' = Inl IndexError"
      by blast
    then show "parse_sum ?ext i = ?E"
    proof cases
      case operand
      with 4(1) le have "parse_term ?ext i = ?E" by blast
      then show ?thesis
        by (subst parse_sum.simps) simp
    next
      case loop
      from sum_loop_Inl [OF loop(2)] have "i' \<le> length tokens" by simp
      with parse_append(2) [OF tok(4,5), of tokens i rest] loop(1)
      have f': "parse_term ?ext i = Inr (nd, i')" by blast
      from 4(2) [OF loop(1) refl] loop(2) have "sum_loop ?ext nd i' = ?E" by blast
      with f' show ?thesis
        by (subst parse_sum.simps) simp
    qed
  qed
next
  case (5 tokens node i)
  let ?ext = "tokens @ tok # rest"
  let ?E = "Inl (ValueError (''Unexpected token: '' @ tok)) :: error + ast \<times> nat"
  show ?case
  proof (intro impI)
    assume r: "sum_loop tokens node i = Inl IndexError"
    from sum_loop_Inl [OF r] have c: "i < length tokens" "tokens ! i = ''+''" by simp_all
    then have nth: "?ext ! i = ''+''" "i < length ?ext" by (simp_all add: nth_append)
    from sum_loop_Inl [OF r] consider
      (operand) "parse_term tokens (i + 1) = Inl IndexError"
      | (loop) rt i' where "parse_term tokens (i + 1) = Inr (rt, i')"
          "sum_loop tokens (Node ''+'' node rt) i' = Inl IndexError"
      by blast
    then show "sum_loop ?ext node i = ?E"
    proof cases
      case operand
      with 5(1) [OF conjI [OF c]] c have "parse_term ?ext (i + 1) = ?E" by simp
      with nth show ?thesis
        by (subst sum_loop.simps) simp
    next
      case loop
      from sum_loop_Inl [OF loop(2)] have "i' \<le> length tokens" by simp
      with parse_append(2) [OF tok(4,5), of tokens "i + 1" rest] loop(1)
      have f': "parse_term ?ext (i + 1) = Inr (rt, i')" by blast
      from 5(2) [OF conjI [OF c] loop(1) refl] loop(2) c
      have "sum_loop ?ext (Node ''+'' node rt) i' = ?E" by simp
      with f' nth show ?thesis
        by (subst sum_loop.simps) simp
    qed
  qed
qed

subsection \<open>Unclosed parenthesis\<close>

text \<open>
  The input \<^verbatim>\<open>"(a+b"\<close>: \<^verbatim>\<open>parse_factor\<close> returns \<^verbatim>\<open>j+1\<close> after the inner sum without
  looking at \<^verbatim>\<open>tokens[j]\<close>, so the missing \<^verbatim>\<open>)\<close> is not noticed.
\<close>

theorem unclosed_paren_accepted:
  "parse_expression (tokenize ''(a+b'') = Inr (Node ''+'' (Leaf ''a'') (Leaf ''b''))"
  by code_simp

text \<open>
  Claim C1, as the code has it.  The parser does not test for the closing parenthesis,
  in the following sense.
  \<^item> At any index \<open>i\<close> that holds \<^verbatim>\<open>(\<close>: when the sum that starts at \<open>i + 1\<close> parses with
    tree \<open>n\<close> and ends at index \<open>j\<close>, \<^verbatim>\<open>parse_factor\<close> returns \<open>n\<close> and the index \<open>j + 1\<close>,
    whatever token is at \<open>j\<close> and also when \<open>j\<close> is past the end of the tokens; when that
    sum fails, \<^verbatim>\<open>parse_factor\<close> fails with the same error.
  \<^item> An input is accepted with the tree \<open>t\<close> if and only if the same input followed by one
    more \<^verbatim>\<open>)\<close> is accepted with the tree \<open>t\<close>: leaving out a final \<^verbatim>\<open>)\<close> changes nothing.
  \<^item> For an input that begins with \<^verbatim>\<open>(\<close>: if the tokens after it parse as a sum that
    uses all of them, as in \<^verbatim>\<open>"(a+b"\<close>, the input is accepted and yields that sum's tree,
    and so does the input with one more token at its end, whatever that token is except
    \<^verbatim>\<open>+\<close> and \<^verbatim>\<open>*\<close>; if parsing the tokens after the \<^verbatim>\<open>(\<close> as a sum fails, the input is
    rejected with the same error (\<^verbatim>\<open>IndexError\<close> when the tokens run out where a factor
    is expected, as in \<^verbatim>\<open>"(a+"\<close>).
\<close>

theorem unclosed_group:
  "(i < length ts \<and> ts ! i = ''('' \<and> parse_sum ts (Suc i) = Inr (n, j) \<longrightarrow>
      parse_factor ts i = Inr (n, Suc j)) \<and>
   (i < length ts \<and> ts ! i = ''('' \<and> parse_sum ts (Suc i) = Inl e \<longrightarrow>
      parse_factor ts i = Inl e) \<and>
   (parse_expression (w @ ['')'']) = Inr t \<longleftrightarrow> parse_expression w = Inr t) \<and>
   (parse_sum us 0 = Inr (u, length us) \<longrightarrow> parse_expression (''('' # us) = Inr u) \<and>
   (parse_sum us 0 = Inr (u, length us) \<and> x \<noteq> ''+'' \<and> x \<noteq> ''*'' \<longrightarrow>
      parse_expression (''('' # us @ [x]) = Inr u) \<and>
   (parse_sum vs 0 = Inl e' \<longrightarrow> parse_expression (''('' # vs) = Inl e')"
proof -
  have whole: "parse_expression (''('' # ws) = Inr u"
    if a: "parse_sum ws 0 = Inr (u, k)" "length ws \<le> Suc k" for ws k
  proof -
    have "parse_sum (''('' # ws) (Suc 0) = Inr (u, Suc k)"
      by (simp add: parse_shift a)
    then have f: "parse_factor (''('' # ws) 0 = Inr (u, Suc (Suc k))"
      by (simp add: parse_group)
    from a(2) have "parse_term (''('' # ws) 0 = Inr (u, Suc (Suc k))"
      by (subst parse_term.simps) (simp add: f loop_exit)
    with a(2) have "parse_sum (''('' # ws) 0 = Inr (u, Suc (Suc k))"
      by (subst parse_sum.simps) (simp add: loop_exit)
    then show ?thesis
      by (simp add: parse_expression_def)
  qed
  have c1: "parse_factor ts i = Inr (n, Suc j)"
    if "i < length ts \<and> ts ! i = ''('' \<and> parse_sum ts (Suc i) = Inr (n, j)"
    using that by (simp add: parse_group)
  have c2: "parse_factor ts i = Inl e"
    if "i < length ts \<and> ts ! i = ''('' \<and> parse_sum ts (Suc i) = Inl e"
    using that by (simp add: parse_group)
  have c3: "parse_expression (w @ ['')'']) = Inr t \<longleftrightarrow> parse_expression w = Inr t"
    by (rule parse_expression_snoc)
      (simp_all add: isdigit_def isalpha_def is_digit_char_def is_alpha_char_def)
  have c4: "parse_expression (''('' # us) = Inr u" if "parse_sum us 0 = Inr (u, length us)"
    using whole [OF that] by simp
  have c5: "parse_expression (''('' # us @ [x]) = Inr u"
    if a: "parse_sum us 0 = Inr (u, length us) \<and> x \<noteq> ''+'' \<and> x \<noteq> ''*''"
  proof -
    from a have "x \<noteq> ''*''" "x \<noteq> ''+''" by simp_all
    from parse_append(4) [OF this, of us 0 "[]"] a
    have "parse_sum (us @ [x]) 0 = Inr (u, length us)" by simp
    from whole [OF this] show ?thesis by simp
  qed
  have c6: "parse_expression (''('' # vs) = Inl e'" if a: "parse_sum vs 0 = Inl e'"
  proof -
    have "parse_sum (''('' # vs) (Suc 0) = Inl e'"
      by (simp add: parse_shift a)
    then have f: "parse_factor (''('' # vs) 0 = Inl e'"
      by (simp add: parse_group)
    have "parse_term (''('' # vs) 0 = Inl e'"
      by (subst parse_term.simps) (simp add: f)
    then have "parse_sum (''('' # vs) 0 = Inl e'"
      by (subst parse_sum.simps) simp
    then show ?thesis
      by (simp add: parse_expression_def)
  qed
  from c1 c2 c3 c4 c5 c6 show ?thesis by blast
qed

theorem unclosed_group_witness:
  "parse_sum [''('', ''a'', ''b''] (Suc 0) = Inr (Leaf ''a'', 2) \<and>
   parse_factor [''('', ''a'', ''b''] 0 = Inr (Leaf ''a'', Suc 2) \<and>
   parse_sum [''a'', ''+'', ''('', ''b'', ''*''] (Suc 2) = Inl IndexError \<and>
   parse_factor [''a'', ''+'', ''('', ''b'', ''*''] 2 = Inl IndexError \<and>
   parse_expression ([''a'', ''*'', ''('', ''b'', ''+'', ''c''] @ ['')'']) =
     Inr (Node ''*'' (Leaf ''a'') (Node ''+'' (Leaf ''b'') (Leaf ''c''))) \<and>
   parse_expression [''a'', ''*'', ''('', ''b'', ''+'', ''c''] =
     Inr (Node ''*'' (Leaf ''a'') (Node ''+'' (Leaf ''b'') (Leaf ''c''))) \<and>
   parse_sum [''a'', ''+'', ''b''] 0 =
     Inr (Node ''+'' (Leaf ''a'') (Leaf ''b''), length [''a'', ''+'', ''b'']) \<and>
   parse_expression (''('' # [''a'', ''+'', ''b'']) = Inr (Node ''+'' (Leaf ''a'') (Leaf ''b'')) \<and>
   parse_expression (''('' # [''a'', ''+'', ''b''] @ [''c'']) =
     Inr (Node ''+'' (Leaf ''a'') (Leaf ''b'')) \<and>
   parse_sum [''a'', ''+''] 0 = Inl IndexError \<and>
   parse_expression (''('' # [''a'', ''+'']) = Inl IndexError"
proof -
  have h1: "parse_sum [''('', ''a'', ''b''] (Suc 0) = Inr (Leaf ''a'', 2)"
    by code_simp
  have h2: "parse_sum [''a'', ''+'', ''('', ''b'', ''*''] (Suc 2) = Inl IndexError"
    by code_simp
  have h3: "parse_expression ([''a'', ''*'', ''('', ''b'', ''+'', ''c''] @ ['')'']) =
     Inr (Node ''*'' (Leaf ''a'') (Node ''+'' (Leaf ''b'') (Leaf ''c'')))"
    by code_simp
  have h4: "parse_sum [''a'', ''+'', ''b''] 0 =
     Inr (Node ''+'' (Leaf ''a'') (Leaf ''b''), length [''a'', ''+'', ''b''])"
    by code_simp
  have h5: "parse_sum [''a'', ''+''] 0 = Inl IndexError"
    by code_simp
  have k1: "parse_factor [''('', ''a'', ''b''] 0 = Inr (Leaf ''a'', Suc 2)"
    using unclosed_group [where ts = "[''('', ''a'', ''b'']" and i = 0 and n = "Leaf ''a''"
        and j = 2] h1
    by simp
  have k2: "parse_factor [''a'', ''+'', ''('', ''b'', ''*''] 2 = Inl IndexError"
    using unclosed_group [where ts = "[''a'', ''+'', ''('', ''b'', ''*'']" and i = 2
        and e = IndexError] h2
    by simp
  have k3: "parse_expression [''a'', ''*'', ''('', ''b'', ''+'', ''c''] =
     Inr (Node ''*'' (Leaf ''a'') (Node ''+'' (Leaf ''b'') (Leaf ''c'')))"
    using unclosed_group [where w = "[''a'', ''*'', ''('', ''b'', ''+'', ''c'']"
        and t = "Node ''*'' (Leaf ''a'') (Node ''+'' (Leaf ''b'') (Leaf ''c''))"] h3
    by blast
  have k4: "parse_expression (''('' # [''a'', ''+'', ''b'']) = Inr (Node ''+'' (Leaf ''a'') (Leaf ''b''))"
    "parse_expression (''('' # [''a'', ''+'', ''b''] @ [''c'']) =
     Inr (Node ''+'' (Leaf ''a'') (Leaf ''b''))"
    using unclosed_group [where us = "[''a'', ''+'', ''b'']"
        and u = "Node ''+'' (Leaf ''a'') (Leaf ''b'')" and x = "''c''"] h4
    by simp_all
  have k5: "parse_expression (''('' # [''a'', ''+'']) = Inl IndexError"
    using unclosed_group [where vs = "[''a'', ''+'']" and e' = IndexError] h5
    by blast
  from h1 h2 h3 h4 h5 k1 k2 k3 k4 k5 show ?thesis by blast
qed

subsection \<open>Minus and slash tokens\<close>

text \<open>
  The input \<^verbatim>\<open>"a-b"\<close>: after the factor \<^verbatim>\<open>a\<close> both loops stop at \<^verbatim>\<open>-\<close>, and
  \<^verbatim>\<open>parse_expression\<close> drops the returned index.
\<close>

theorem minus_accepted:
  "parse_expression (tokenize ''a-b'') = Inr (Leaf ''a'')"
  by code_simp

text \<open>
  Claim C2, as the code has it.  A \<^verbatim>\<open>-\<close> or \<^verbatim>\<open>/\<close> token is rejected in some places and
  passed over in others.
  \<^item> \<^verbatim>\<open>parse_factor\<close>, called at an index that holds the token, raises
    \<^verbatim>\<open>ValueError("Unexpected token: ...")\<close>.  The input is rejected with that error
    whenever the tokens before the token are tokens on which the parser alone fails with
    \<^verbatim>\<open>IndexError\<close>, that is, runs out of tokens where it expects a factor.  In particular
    it is rejected when the token is the first token, and when the token comes right
    after a \<^verbatim>\<open>+\<close> or \<^verbatim>\<open>*\<close> that follows tokens which parse as a sum using all of them
    (as in \<^verbatim>\<open>"a+-b"\<close> and \<^verbatim>\<open>"a*/b"\<close>).
  \<^item> Where the tokens before the token parse as a sum that ends at the token, as in
    \<^verbatim>\<open>"a-b"\<close>, or before it, the input is accepted: \<^verbatim>\<open>parse_expression\<close> returns that
    sum's tree and ignores the token and everything after it.
  \<^item> Where the token stands at the index at which the sum inside a parenthesized group
    ends, as in \<^verbatim>\<open>"(a-*c"\<close>, it is skipped in the place of the \<^verbatim>\<open>)\<close>: \<^verbatim>\<open>parse_factor\<close>
    returns the tree of the group and the index after the token.
\<close>

theorem minus_slash_tokens:
  assumes "tok = ''-'' \<or> tok = ''/''"
  shows
  "(i < length ts \<and> ts ! i = tok \<longrightarrow>
      parse_factor ts i = Inl (ValueError (''Unexpected token: '' @ tok))) \<and>
   (parse_expression pre = Inl IndexError \<longrightarrow>
      parse_expression (pre @ tok # rest) =
        Inl (ValueError (''Unexpected token: '' @ tok))) \<and>
   parse_expression (tok # rest) = Inl (ValueError (''Unexpected token: '' @ tok)) \<and>
   (parse_sum us 0 = Inr (t, length us) \<and> (op = ''+'' \<or> op = ''*'') \<longrightarrow>
      parse_expression (us @ op # tok # rest) =
        Inl (ValueError (''Unexpected token: '' @ tok))) \<and>
   (parse_sum us 0 = Inr (t, j) \<and> j \<le> length us \<longrightarrow>
      parse_expression (us @ tok # rest) = Inr t) \<and>
   (k < length vs \<and> vs ! k = ''('' \<and> parse_sum vs (Suc k) = Inr (n, m) \<and>
      m < length vs \<and> vs ! m = tok \<longrightarrow> parse_factor vs k = Inr (n, Suc m))"
proof -
  note tok = minus_slash_not_leaf [OF assms]
  have c1: "parse_factor ts i = Inl (ValueError (''Unexpected token: '' @ tok))"
    if "i < length ts \<and> ts ! i = tok"
    using that tok(1,2,3) by (intro parse_factor_error) simp_all
  have c2: "parse_expression (pre @ tok # rest) =
      Inl (ValueError (''Unexpected token: '' @ tok))"
    if a: "parse_expression pre = Inl IndexError"
  proof -
    from a have "parse_sum pre 0 = Inl IndexError"
      by (auto simp: parse_expression_def split: sum.splits)
    with parse_factor_expected(4) [OF tok, of pre 0 rest]
    have "parse_sum (pre @ tok # rest) 0 = Inl (ValueError (''Unexpected token: '' @ tok))"
      by simp
    then show ?thesis
      by (simp add: parse_expression_def)
  qed
  have c3: "parse_expression (tok # rest) = Inl (ValueError (''Unexpected token: '' @ tok))"
  proof -
    from tok(1,2,3) have "parse_factor (tok # rest) 0 =
        Inl (ValueError (''Unexpected token: '' @ tok))"
      by (intro parse_factor_error) simp_all
    then have "parse_term (tok # rest) 0 = Inl (ValueError (''Unexpected token: '' @ tok))"
      by (subst parse_term.simps) simp
    then have "parse_sum (tok # rest) 0 = Inl (ValueError (''Unexpected token: '' @ tok))"
      by (subst parse_sum.simps) simp
    then show ?thesis
      by (simp add: parse_expression_def)
  qed
  have c4: "parse_expression (us @ op # tok # rest) =
      Inl (ValueError (''Unexpected token: '' @ tok))"
    if a: "parse_sum us 0 = Inr (t, length us) \<and> (op = ''+'' \<or> op = ''*'')"
  proof -
    from a have "op = ''+'' \<or> op = ''*''" by simp
    from parse_operand_error(4) [OF tok(1,2,3) this, of us 0 rest] a
    have "parse_sum (us @ op # tok # rest) 0 = Inl (ValueError (''Unexpected token: '' @ tok))"
      by simp
    then show ?thesis
      by (simp add: parse_expression_def)
  qed
  have c5: "parse_expression (us @ tok # rest) = Inr t"
    if a: "parse_sum us 0 = Inr (t, j) \<and> j \<le> length us"
  proof -
    from parse_append(4) [OF tok(4,5), of us 0 rest] a
    have "parse_sum (us @ tok # rest) 0 = Inr (t, j)" by simp
    then show ?thesis
      by (simp add: parse_expression_def)
  qed
  have c6: "parse_factor vs k = Inr (n, Suc m)"
    if "k < length vs \<and> vs ! k = ''('' \<and> parse_sum vs (Suc k) = Inr (n, m) \<and>
      m < length vs \<and> vs ! m = tok"
    using that by (simp add: parse_group)
  from c1 c2 c3 c4 c5 c6 show ?thesis by blast
qed

theorem minus_slash_tokens_witness:
  "parse_factor [''a'', ''+'', ''('', ''-'', ''b'', '')''] 3 =
     Inl (ValueError ''Unexpected token: -'') \<and>
   parse_expression [''a'', ''*'', ''(''] = Inl IndexError \<and>
   parse_expression ([''a'', ''*'', ''(''] @ ''-'' # [''b'', '')'']) =
     Inl (ValueError ''Unexpected token: -'') \<and>
   parse_expression (''/'' # [''b'']) = Inl (ValueError ''Unexpected token: /'') \<and>
   parse_sum [''a'', ''*'', ''b''] 0 =
     Inr (Node ''*'' (Leaf ''a'') (Leaf ''b''), length [''a'', ''*'', ''b'']) \<and>
   parse_expression ([''a'', ''*'', ''b''] @ ''+'' # ''-'' # [''c'']) =
     Inl (ValueError ''Unexpected token: -'') \<and>
   parse_expression ([''a'', ''*'', ''b''] @ ''*'' # ''/'' # [''c'']) =
     Inl (ValueError ''Unexpected token: /'') \<and>
   parse_expression ([''a'', ''*'', ''b''] @ ''-'' # [''c'', ''+'']) =
     Inr (Node ''*'' (Leaf ''a'') (Leaf ''b'')) \<and>
   parse_sum [''('', ''a'', ''-'', ''*'', ''c''] (Suc 0) = Inr (Leaf ''a'', 2) \<and>
   parse_factor [''('', ''a'', ''-'', ''*'', ''c''] 0 = Inr (Leaf ''a'', Suc 2) \<and>
   parse_expression [''('', ''a'', ''-'', ''*'', ''c''] = Inr (Node ''*'' (Leaf ''a'') (Leaf ''c''))"
proof -
  have m: "''-'' = ''-'' \<or> ''-'' = ''/''" and s: "''/'' = ''-'' \<or> ''/'' = ''/''"
    by simp_all
  have h0: "parse_expression [''a'', ''*'', ''(''] = Inl IndexError"
    by code_simp
  have h1: "parse_sum [''a'', ''*'', ''b''] 0 =
     Inr (Node ''*'' (Leaf ''a'') (Leaf ''b''), length [''a'', ''*'', ''b''])"
    by code_simp
  have h2: "parse_sum [''('', ''a'', ''-'', ''*'', ''c''] (Suc 0) = Inr (Leaf ''a'', 2)"
    by code_simp
  have h3: "parse_expression [''('', ''a'', ''-'', ''*'', ''c''] =
      Inr (Node ''*'' (Leaf ''a'') (Leaf ''c''))"
    by code_simp
  have k1: "parse_factor [''a'', ''+'', ''('', ''-'', ''b'', '')''] 3 =
     Inl (ValueError ''Unexpected token: -'')"
    using minus_slash_tokens [OF m, where ts = "[''a'', ''+'', ''('', ''-'', ''b'', '')'']"
        and i = 3]
    by simp
  have k0: "parse_expression ([''a'', ''*'', ''(''] @ ''-'' # [''b'', '')'']) =
     Inl (ValueError ''Unexpected token: -'')"
    using minus_slash_tokens [OF m, where pre = "[''a'', ''*'', ''('']"
        and rest = "[''b'', '')'']"] h0
    by simp
  have k2: "parse_expression (''/'' # [''b'']) = Inl (ValueError ''Unexpected token: /'')"
    using minus_slash_tokens [OF s, where rest = "[''b'']"]
    by simp
  have k3: "parse_expression ([''a'', ''*'', ''b''] @ ''+'' # ''-'' # [''c'']) =
     Inl (ValueError ''Unexpected token: -'')"
    using minus_slash_tokens [OF m, where us = "[''a'', ''*'', ''b'']"
        and t = "Node ''*'' (Leaf ''a'') (Leaf ''b'')" and op = "''+''" and rest = "[''c'']"] h1
    by simp
  have k4: "parse_expression ([''a'', ''*'', ''b''] @ ''*'' # ''/'' # [''c'']) =
     Inl (ValueError ''Unexpected token: /'')"
    using minus_slash_tokens [OF s, where us = "[''a'', ''*'', ''b'']"
        and t = "Node ''*'' (Leaf ''a'') (Leaf ''b'')" and op = "''*''" and rest = "[''c'']"] h1
    by simp
  have k5: "parse_expression ([''a'', ''*'', ''b''] @ ''-'' # [''c'', ''+'']) =
     Inr (Node ''*'' (Leaf ''a'') (Leaf ''b''))"
    using minus_slash_tokens [OF m, where us = "[''a'', ''*'', ''b'']"
        and t = "Node ''*'' (Leaf ''a'') (Leaf ''b'')" and j = 3 and rest = "[''c'', ''+'']"] h1
    by simp
  have k6: "parse_factor [''('', ''a'', ''-'', ''*'', ''c''] 0 = Inr (Leaf ''a'', Suc 2)"
    using minus_slash_tokens [OF m, where vs = "[''('', ''a'', ''-'', ''*'', ''c'']"
        and k = 0 and n = "Leaf ''a''" and m = 2] h2
    by simp
  from h0 h1 h2 h3 k0 k1 k2 k3 k4 k5 k6 show ?thesis by blast
qed

subsection \<open>Printing and parsing again\<close>

lemma span_run:
  "list_all P cs \<Longrightarrow> rest = [] \<or> \<not> P (hd rest) \<Longrightarrow>
     takeWhile P (cs @ rest) = cs \<and> dropWhile P (cs @ rest) = rest"
  by (induction cs) (cases rest; auto)+

lemma alpha_not_digit: "is_alpha_char c \<Longrightarrow> \<not> is_digit_char c"
  by (auto simp: is_alpha_char_def is_digit_char_def)

lemma tokenize_digits:
  assumes "isdigit v" "rest = [] \<or> \<not> is_digit_char (hd rest)"
  shows "tokenize (v @ rest) = v # tokenize rest"
proof -
  from assms(1) obtain c cs where v: "v = c # cs" and c: "is_digit_char c"
    and cs: "list_all is_digit_char cs"
    by (cases v) (auto simp: isdigit_def)
  from span_run [OF cs assms(2)] c show ?thesis
    by (simp add: v tokenize.simps)
qed

lemma tokenize_letters:
  assumes "isalpha v" "rest = [] \<or> \<not> is_alpha_char (hd rest)"
  shows "tokenize (v @ rest) = v # tokenize rest"
proof -
  from assms(1) obtain c cs where v: "v = c # cs" and c: "is_alpha_char c"
    and cs: "list_all is_alpha_char cs"
    by (cases v) (auto simp: isalpha_def)
  from span_run [OF cs assms(2)] c alpha_not_digit [OF c] show ?thesis
    by (simp add: v tokenize.simps)
qed

lemma tokenize_space: "tokenize (CHR '' '' # s) = tokenize s"
  by (simp add: tokenize.simps is_digit_char_def is_alpha_char_def is_op_char_def)

lemma tokenize_op: "c \<in> set ''+*()'' \<Longrightarrow> tokenize (c # s) = [c] # tokenize s"
  by (auto simp: tokenize.simps is_digit_char_def is_alpha_char_def is_op_char_def)

lemma tokenize_print:
  "parser_tree t \<Longrightarrow>
   rest = [] \<or> (\<not> is_digit_char (hd rest) \<and> \<not> is_alpha_char (hd rest)) \<Longrightarrow>
   tokenize (print_ast t @ rest) = toks t @ tokenize rest"
proof (induction t arbitrary: rest)
  case (Leaf v)
  from Leaf have "isdigit v \<or> isalpha v" by simp
  then show ?case
  proof
    assume "isdigit v"
    from tokenize_digits [OF this, of rest] Leaf(2) show ?thesis by auto
  next
    assume "isalpha v"
    from tokenize_letters [OF this, of rest] Leaf(2) show ?thesis by auto
  qed
next
  case (Node v l r)
  from Node.prems have v: "v = ''+'' \<or> v = ''*''" and l: "parser_tree l" and r: "parser_tree r"
    by auto
  have sp: "\<not> is_digit_char CHR '' ''" "\<not> is_alpha_char CHR '' ''"
    "\<not> is_digit_char CHR '')''" "\<not> is_alpha_char CHR '')''"
    by (simp_all add: is_digit_char_def is_alpha_char_def)
  have "tokenize (print_ast (Node v l r) @ rest) =
      ''('' # tokenize (print_ast l @ (CHR '' '' # v @ CHR '' '' # print_ast r @ CHR '')'' # rest))"
    by (simp add: tokenize_op)
  also have "tokenize (print_ast l @ (CHR '' '' # v @ CHR '' '' # print_ast r @ CHR '')'' # rest)) =
      toks l @ tokenize (CHR '' '' # v @ CHR '' '' # print_ast r @ CHR '')'' # rest)"
    by (rule Node.IH(1) [OF l]) (simp add: sp)
  also have "tokenize (CHR '' '' # v @ CHR '' '' # print_ast r @ CHR '')'' # rest) =
      v # tokenize (print_ast r @ (CHR '')'' # rest))"
    using v by (auto simp: tokenize_space tokenize_op)
  also have "tokenize (print_ast r @ (CHR '')'' # rest)) = toks r @ tokenize (CHR '')'' # rest)"
    by (rule Node.IH(2) [OF r]) (simp add: sp)
  also have "tokenize (CHR '')'' # rest) = '')'' # tokenize rest"
    by (simp add: tokenize_op)
  finally show ?case by simp
qed

lemma parse_factor_toks:
  "parser_tree t \<Longrightarrow>
   parse_factor (pre @ toks t @ post) (length pre) = Inr (t, length pre + length (toks t))"
proof (induction t arbitrary: pre post)
  case (Leaf v)
  then show ?case
    by (subst parse_factor.simps) (simp add: nth_append)
next
  case (Node v l r)
  from Node.prems have v: "v = ''+'' \<or> v = ''*''" and l: "parser_tree l" and r: "parser_tree r"
    by auto
  let ?ts = "pre @ toks (Node v l r) @ post"
  let ?i1 = "length pre + 1 + length (toks l)"
  let ?i2 = "?i1 + 1 + length (toks r)"
  have ts1: "?ts = (pre @ [''('']) @ toks l @ (v # toks r @ '')'' # post)" by simp
  have ts2: "?ts = (pre @ ''('' # toks l @ [v]) @ toks r @ ('')'' # post)" by simp
  have fl: "parse_factor ?ts (length pre + 1) = Inr (l, ?i1)"
    using Node.IH(1) [OF l, of "pre @ [''('']" "v # toks r @ '')'' # post"]
    by (simp only: ts1) simp
  have fr: "parse_factor ?ts (?i1 + 1) = Inr (r, ?i2)"
    using Node.IH(2) [OF r, of "pre @ ''('' # toks l @ [v]" "'')'' # post"]
    by (simp only: ts2) simp
  have at0: "length pre < length ?ts" "?ts ! length pre = ''(''"
    by (simp_all add: nth_append)
  have at1: "?i1 < length ?ts" "?ts ! ?i1 = v"
    by (simp_all add: nth_append)
  have at2: "?i2 < length ?ts" "?ts ! ?i2 = '')''"
    by (simp_all add: nth_append)
  have stop2: "term_loop ?ts n ?i2 = Inr (n, ?i2)" "sum_loop ?ts n ?i2 = Inr (n, ?i2)" for n
    using at2 by (simp_all add: term_loop_stop sum_loop_stop)
  have "parse_sum ?ts (length pre + 1) = Inr (Node v l r, ?i2)"
  proof (cases "v = ''*''")
    case True
    have "term_loop ?ts l ?i1 = Inr (Node v l r, ?i2)"
      using at1 True fr stop2 by (subst term_loop.simps) simp
    with fl have "parse_term ?ts (length pre + 1) = Inr (Node v l r, ?i2)"
      by (subst parse_term.simps) simp
    then show ?thesis
      using stop2 by (subst parse_sum.simps) simp
  next
    case False
    with v have plus: "v = ''+''" by simp
    have "term_loop ?ts l ?i1 = Inr (l, ?i1)"
      using at1 plus by (simp add: term_loop_stop)
    with fl have tl: "parse_term ?ts (length pre + 1) = Inr (l, ?i1)"
      by (subst parse_term.simps) simp
    have "parse_term ?ts (?i1 + 1) = Inr (r, ?i2)"
      using fr stop2 by (subst parse_term.simps) simp
    then have "sum_loop ?ts l ?i1 = Inr (Node v l r, ?i2)"
      using at1 plus stop2 by (subst sum_loop.simps) simp
    with tl show ?thesis
      by (subst parse_sum.simps) simp
  qed
  then show ?case
    using at0 not_leaf_paren by (subst parse_factor.simps) simp
qed

text \<open>
  Claim C7.  For every tree \<open>t\<close> the parser produces, tokenizing and parsing the
  printed form of \<open>t\<close> gives \<open>t\<close> back (and so printing it again gives the same text).
\<close>

theorem print_parse_roundtrip:
  assumes "parse_expression ts = Inr t"
  shows "parse_expression (tokenize (print_ast t)) = Inr t"
proof -
  from assms have pt: "parser_tree t" by (rule parse_expression_shape)
  from tokenize_print [OF pt, of "[]"] have tk: "tokenize (print_ast t) = toks t"
    by (simp add: tokenize.simps)
  from parse_factor_toks [OF pt, of "[]" "[]"]
  have "parse_factor (toks t) 0 = Inr (t, length (toks t))" by simp
  then have "parse_term (toks t) 0 = Inr (t, length (toks t))"
    by (subst parse_term.simps) (simp add: loop_exit)
  then have "parse_sum (toks t) 0 = Inr (t, length (toks t))"
    by (subst parse_sum.simps) (simp add: loop_exit)
  then show ?thesis
    by (simp add: parse_expression_def tk)
qed

theorem print_parse_roundtrip_witness:
  "parse_expression (tokenize ''a*(b+c)'') = Inr (Node ''*'' (Leaf ''a'') (Node ''+'' (Leaf ''b'') (Leaf ''c''))) \<and>
   parse_expression (tokenize (print_ast (Node ''*'' (Leaf ''a'') (Node ''+'' (Leaf ''b'') (Leaf ''c''))))) =
     Inr (Node ''*'' (Leaf ''a'') (Node ''+'' (Leaf ''b'') (Leaf ''c'')))"
proof -
  have h: "parse_expression (tokenize ''a*(b+c)'') =
      Inr (Node ''*'' (Leaf ''a'') (Node ''+'' (Leaf ''b'') (Leaf ''c'')))"
    by code_simp
  from print_parse_roundtrip [OF h] h show ?thesis by simp
qed

section \<open>Properties of the rewrite pass\<close>

subsection \<open>Literals and the measure\<close>

lemma digit_char_is_digit: "d < 10 \<Longrightarrow> is_digit_char (digit_char d)"
  unfolding is_digit_char_def digit_char_def by (rule nth_mem) simp

lemma list_all_str_of_int: "list_all is_digit_char (str_of_int n)"
proof (induction n rule: str_of_int.induct)
  case (1 n)
  show ?case
  proof (cases "n < 10")
    case True
    then show ?thesis by (subst str_of_int.simps) (simp add: digit_char_is_digit)
  next
    case False
    with 1 show ?thesis by (subst str_of_int.simps) (simp add: digit_char_is_digit)
  qed
qed

lemma str_of_int_nonempty: "str_of_int n \<noteq> []"
  by (subst str_of_int.simps) simp

lemma isdigit_str_of_int [simp]: "isdigit (str_of_int n)"
  by (simp add: isdigit_def list_all_str_of_int str_of_int_nonempty)

lemma isdigit_consts [simp]: "isdigit ''0''" "isdigit ''1''" "\<not> isdigit ''+''" "\<not> isdigit ''*''"
  "\<not> isalpha ''+''" "\<not> isalpha ''*''"
  by (simp_all add: isdigit_def isalpha_def is_digit_char_def is_alpha_char_def)

lemma mu_ge2: "2 \<le> mu t"
proof (induction t)
  case (Leaf v)
  show ?case by simp
next
  case (Node v l r)
  have "2 * 1 \<le> mu l * mu r"
    by (rule mult_le_mono) (use Node in simp_all)
  with Node show ?case by simp
qed

lemma mu_pos [simp]: "0 < mu t"
  using mu_ge2 [of t] by simp

lemma mu_left: "mu l < mu (Node v l r)"
proof -
  have "mu l * 1 < mu l * mu r"
    using mu_ge2 [of r] by (intro mult_strict_left_mono) simp_all
  then show ?thesis by simp
qed

lemma mu_right: "mu r < mu (Node v l r)"
proof -
  have "1 * mu r < mu l * mu r"
    using mu_ge2 [of l] by (intro mult_strict_right_mono) simp_all
  then show ?thesis by simp
qed

lemma mu_distribute: "is_sum r \<Longrightarrow> mu (distribute l r) < mu l * mu r"
proof (cases r)
  case (Leaf v)
  assume "is_sum r" with Leaf show ?thesis by simp
next
  case (Node w b c)
  assume "is_sum r"
  with Node have w: "w = ''+''" by simp
  have "mu l * mu b + mu l * mu c + 1 < mu l * (mu b + mu c + 1)"
    using mu_ge2 [of l] by (simp add: algebra_simps)
  with Node w show ?thesis by simp
qed

lemma mu_prod_ge4: "4 \<le> mu l * mu r"
proof -
  have "2 * 2 \<le> mu l * mu r"
    by (rule mult_le_mono) (simp_all add: mu_ge2)
  then show ?thesis by simp
qed

lemma mu_spec_rules:
  "spec_rules v l r = Node v l r \<or> mu (spec_rules v l r) < mu (Node v l r)"
proof -
  have l: "mu l < mu (Node v l r)" and r: "mu r < mu (Node v l r)"
    by (rule mu_left, rule mu_right)
  have two: "2 < mu (Node v l r)"
    using mu_prod_ge4 [of l r] mu_ge2 [of l] by simp
  show ?thesis
    unfolding spec_rules_def
    using l r two mu_distribute [of r l] by (auto simp del: mu.simps) (simp_all)
qed

lemma reduces_mu: "reduces t t' \<Longrightarrow> t' = t \<or> mu t' < mu t"
proof (induction rule: reduces.induct)
  case (red_refl t)
  show ?case by simp
next
  case (red_rule v l r)
  show ?case by (rule mu_spec_rules)
next
  case (red_cong l l' r r' v)
  have le: "mu l' \<le> mu l" "mu r' \<le> mu r"
    using red_cong.IH by auto
  show ?case
  proof (cases "l' = l \<and> r' = r")
    case True
    then show ?thesis by simp
  next
    case False
    with red_cong.IH have lt: "mu l' < mu l \<or> mu r' < mu r" by auto
    have "mu l' * mu r' < mu l * mu r"
    proof (cases "mu l' < mu l")
      case True
      have "mu l' * mu r' \<le> mu l' * mu r" using le by simp
      also have "\<dots> < mu l * mu r" using True by simp
      finally show ?thesis .
    next
      case False
      with lt le have r: "mu r' < mu r" and l: "mu l' = mu l" by auto
      then show ?thesis by simp
    qed
    moreover have "mu l' + mu r' < mu l + mu r" using lt le by linarith
    ultimately show ?thesis by simp
  qed
next
  case (red_trans s t u)
  then show ?case by auto
qed

lemma spec_rules_parser_tree:
  assumes "parser_tree (Node v l r)"
  shows "parser_tree (spec_rules v l r)"
proof -
  have "parser_tree (distribute l r)" if "is_sum r"
    using that assms by (cases r) auto
  with assms show ?thesis
    by (auto simp: spec_rules_def)
qed

lemma reduces_parser_tree: "reduces t t' \<Longrightarrow> parser_tree t \<Longrightarrow> parser_tree t'"
proof (induction rule: reduces.induct)
  case (red_rule v l r)
  then show ?case by (rule spec_rules_parser_tree)
qed auto

lemma nf_rewrite_spec: "nf t \<Longrightarrow> rewrite_spec t = t"
  by (induction t) auto

lemma nf_reduces: "reduces t t' \<Longrightarrow> nf t \<Longrightarrow> t' = t"
  by (induction rule: reduces.induct) auto

lemma reduces_mu_le: "reduces t t' \<Longrightarrow> mu t' \<le> mu t"
  using reduces_mu [of t t'] by auto

lemma mu_Node_mono:
  assumes "mu l' \<le> mu l" "mu r' \<le> mu r"
  shows "mu (Node v l' r') \<le> mu (Node v l r)"
  using assms by (simp add: mult_le_mono)

lemma mu_Node_strict:
  assumes "mu l' \<le> mu l" "mu r' \<le> mu r" "mu l' < mu l \<or> mu r' < mu r"
  shows "mu (Node v l' r') < mu (Node v l r)"
proof -
  have "mu l' * mu r' < mu l * mu r"
  proof (cases "mu l' < mu l")
    case True
    have "mu l' * mu r' \<le> mu l' * mu r" using assms(2) by simp
    also have "\<dots> < mu l * mu r" using True by simp
    finally show ?thesis .
  next
    case False
    with assms have "mu r' < mu r" "mu l' = mu l" by auto
    then show ?thesis by simp
  qed
  moreover have "mu l' + mu r' < mu l + mu r" using assms by linarith
  ultimately show ?thesis by simp
qed

subsection \<open>Trees in the store\<close>

lemma repr_Node_iff:
  "repr h p (Node v l r) \<longleftrightarrow>
     p < length h \<and> val (h ! p) = v \<and>
     (\<exists>pl pr. left (h ! p) = Some pl \<and> right (h ! p) = Some pr \<and> repr h pl l \<and> repr h pr r)"
  by (auto split: option.splits)

lemma repr_NodeE:
  assumes "repr h p (Node v l r)"
  obtains pl pr where "p < length h" "val (h ! p) = v" "left (h ! p) = Some pl"
    "right (h ! p) = Some pr" "repr h pl l" "repr h pr r"
    "addrs h p (Node v l r) = {p} \<union> addrs h pl l \<union> addrs h pr r"
  using assms by (auto split: option.splits)

lemma repr_bound: "repr h p t \<Longrightarrow> p < length h"
  by (cases t) auto

lemma self_in_addrs [simp]: "p \<in> addrs h p t"
  by (cases t) auto

lemma repr_functional: "repr h p t \<Longrightarrow> repr h p t' \<Longrightarrow> t = t'"
proof (induction t arbitrary: p t')
  case (Leaf v)
  then show ?case by (cases t') auto
next
  case (Node v l r)
  from Node.prems(1) obtain pl pr where a: "val (h ! p) = v" "left (h ! p) = Some pl"
    "right (h ! p) = Some pr" "repr h pl l" "repr h pr r"
    by (rule repr_NodeE)
  show ?case
  proof (cases t')
    case (Leaf w)
    with Node.prems(2) a show ?thesis by simp
  next
    case n: (Node w l' r')
    with Node.prems(2) a have "w = v" "repr h pl l'" "repr h pr r'" by auto
    with Node.IH(1) [OF a(4)] Node.IH(2) [OF a(5)] n show ?thesis by simp
  qed
qed

lemma addrs_bound: "repr h p t \<Longrightarrow> addrs h p t \<subseteq> {..<length h}"
proof (induction t arbitrary: p)
  case (Leaf v)
  then show ?case by simp
next
  case (Node v l r)
  from Node.prems obtain pl pr where a: "p < length h" "repr h pl l" "repr h pr r"
    "addrs h p (Node v l r) = {p} \<union> addrs h pl l \<union> addrs h pr r"
    by (rule repr_NodeE)
  with Node.IH(1) [OF a(2)] Node.IH(2) [OF a(3)] show ?case by auto
qed

text \<open>
  Objects outside the footprint do not matter.
\<close>

lemma repr_frame:
  assumes "repr h p t" "length h \<le> length h'" "\<forall>q \<in> addrs h p t. h' ! q = h ! q"
  shows "repr h' p t \<and> addrs h' p t = addrs h p t"
  using assms
proof (induction t arbitrary: p)
  case (Leaf v)
  then show ?case by auto
next
  case (Node v l r)
  from Node.prems(1) obtain pl pr where a: "p < length h" "val (h ! p) = v"
    "left (h ! p) = Some pl" "right (h ! p) = Some pr" "repr h pl l" "repr h pr r"
    "addrs h p (Node v l r) = {p} \<union> addrs h pl l \<union> addrs h pr r"
    by (rule repr_NodeE)
  from Node.prems(3) a(7) have same: "h' ! p = h ! p"
    and sl: "\<forall>q \<in> addrs h pl l. h' ! q = h ! q" and sr: "\<forall>q \<in> addrs h pr r. h' ! q = h ! q"
    by auto
  from Node.IH(1) [OF a(5) Node.prems(2) sl] Node.IH(2) [OF a(6) Node.prems(2) sr]
  show ?case using a same Node.prems(2) by auto
qed

lemma addrs_sub:
  assumes "repr h p t" "q \<in> addrs h p t"
  shows "\<exists>s. repr h q s \<and> addrs h q s \<subseteq> addrs h p t \<and> (q = p \<and> s = t \<or> size s < size t)"
  using assms
proof (induction t arbitrary: p)
  case (Leaf v)
  then show ?case by auto
next
  case (Node v l r)
  from Node.prems(1) obtain pl pr where a: "repr h pl l" "repr h pr r"
    "addrs h p (Node v l r) = {p} \<union> addrs h pl l \<union> addrs h pr r"
    by (rule repr_NodeE)
  from Node.prems(2) a(3) consider "q = p" | "q \<in> addrs h pl l" | "q \<in> addrs h pr r" by auto
  then show ?case
  proof cases
    case 1
    with Node.prems(1) show ?thesis by blast
  next
    case 2
    from Node.IH(1) [OF a(1) 2] obtain s where "repr h q s" "addrs h q s \<subseteq> addrs h pl l"
      "size s \<le> size l" by auto
    with a(3) show ?thesis by (intro exI [of _ s]) auto
  next
    case 3
    from Node.IH(2) [OF a(2) 3] obtain s where "repr h q s" "addrs h q s \<subseteq> addrs h pr r"
      "size s \<le> size r" by auto
    with a(3) show ?thesis by (intro exI [of _ s]) auto
  qed
qed

lemma addrs_closed:
  assumes "repr h p t" "q \<in> addrs h p t" "repr h q s"
  shows "addrs h q s \<subseteq> addrs h p t"
  using addrs_sub [OF assms(1,2)] repr_functional [OF assms(3)] by blast

lemma acyclic_child:
  assumes "repr h p t" "repr h q s" "size s < size t"
  shows "p \<notin> addrs h q s"
proof
  assume "p \<in> addrs h q s"
  from addrs_sub [OF assms(2) this] obtain u where "repr h p u" "size u \<le> size s" by auto
  with repr_functional [OF assms(1)] assms(3) show False by auto
qed

lemma addrs_Node:
  "left (h ! p) = Some pl \<Longrightarrow> right (h ! p) = Some pr \<Longrightarrow>
     addrs h p (Node v l r) = {p} \<union> addrs h pl l \<union> addrs h pr r"
  by simp

lemma repr_NodeI:
  "p < length h \<Longrightarrow> val (h ! p) = v \<Longrightarrow> left (h ! p) = Some pl \<Longrightarrow> right (h ! p) = Some pr \<Longrightarrow>
     repr h pl l \<Longrightarrow> repr h pr r \<Longrightarrow> repr h p (Node v l r)"
  by simp

declare repr.simps(2) [simp del] addrs.simps(2) [simp del]

lemma modifies_refl: "modifies X h h"
  unfolding modifies_def by (auto intro: red_refl)

lemma modifies_trans:
  assumes "modifies X h h'" "modifies X h' h''"
  shows "modifies X h h''"
  unfolding modifies_def
proof (intro conjI allI impI)
  show "length h \<le> length h''"
    using assms by (simp add: modifies_def)
next
  fix q assume "q < length h" "q \<notin> X"
  with assms show "h'' ! q = h ! q"
    by (auto simp: modifies_def)
next
  fix q s assume "repr h q s"
  with assms(1) obtain s' where 1: "repr h' q s'" "reduces s s'" "addrs h' q s' \<subseteq> addrs h q s \<union> X"
    unfolding modifies_def by blast
  from assms(2) 1(1) obtain s'' where 2: "repr h'' q s''" "reduces s' s''"
    "addrs h'' q s'' \<subseteq> addrs h' q s' \<union> X"
    unfolding modifies_def by blast
  from 1 2 show "\<exists>s'. repr h'' q s' \<and> reduces s s' \<and> addrs h'' q s' \<subseteq> addrs h q s \<union> X"
    by (intro exI [of _ s'']) (auto intro: red_trans)
qed

lemma modifies_mono: "modifies X h h' \<Longrightarrow> X \<subseteq> Y \<Longrightarrow> modifies Y h h'"
  unfolding modifies_def by blast

lemma modifies_append: "modifies X h (h @ xs)"
  unfolding modifies_def
proof (intro conjI allI impI)
  fix q s assume r: "repr h q s"
  have "\<forall>q \<in> addrs h q s. (h @ xs) ! q = h ! q"
    using addrs_bound [OF r] by (auto simp: nth_append)
  from repr_frame [OF r _ this]
  show "\<exists>s'. repr (h @ xs) q s' \<and> reduces s s' \<and> addrs (h @ xs) q s' \<subseteq> addrs h q s \<union> X"
    by (intro exI [of _ s]) (auto intro: red_refl)
qed (auto simp: nth_append)

lemma modifies_reprD:
  assumes "modifies X h h'" "repr h q s"
  obtains s' where "repr h' q s'" "reduces s s'" "addrs h' q s' \<subseteq> addrs h q s \<union> X"
  using assms unfolding modifies_def by blast

lemma modifies_outside:
  assumes "modifies X h h'" "repr h q s" "addrs h q s \<inter> X = {}"
  shows "repr h' q s \<and> addrs h' q s = addrs h q s"
proof -
  from assms(1) have len: "length h \<le> length h'" by (simp add: modifies_def)
  have "\<forall>a \<in> addrs h q s. h' ! a = h ! a"
    using assms addrs_bound [OF assms(2)] unfolding modifies_def by blast
  from repr_frame [OF assms(2) len this] show ?thesis .
qed

text \<open>
  Assignment to the fields of one object.
\<close>

lemma modifies_assign:
  assumes p: "repr h p (Node v a b)" "p \<in> X"
    and x: "repr h x a'" "reduces a a'" "p \<notin> addrs h x a'"
      "addrs h x a' \<subseteq> addrs h p (Node v a b) \<union> X"
    and y: "repr h y b'" "reduces b b'" "p \<notin> addrs h y b'"
      "addrs h y b' \<subseteq> addrs h p (Node v a b) \<union> X"
    and h': "h' = h[p := \<lparr>val = v, left = Some x, right = Some y\<rparr>]"
  shows "modifies X h h'" and "repr h' p (Node v a' b')"
    and "addrs h' p (Node v a' b') = {p} \<union> addrs h x a' \<union> addrs h y b'"
    and "repr h' x a' \<and> addrs h' x a' = addrs h x a'"
    and "repr h' y b' \<and> addrs h' y b' = addrs h y b'"
proof -
  have len: "length h' = length h" by (simp add: h')
  have same: "h' ! q = h ! q" if "q \<noteq> p" for q using that by (simp add: h')
  have plt: "p < length h" using p(1) by (rule repr_bound)
  have atp: "h' ! p = \<lparr>val = v, left = Some x, right = Some y\<rparr>" using plt by (simp add: h')
  show fx: "repr h' x a' \<and> addrs h' x a' = addrs h x a'"
    by (rule repr_frame [OF x(1)]) (use x(3) same len in \<open>auto intro: same\<close>)
  show fy: "repr h' y b' \<and> addrs h' y b' = addrs h y b'"
    by (rule repr_frame [OF y(1)]) (use y(3) same len in \<open>auto intro: same\<close>)
  show rp: "repr h' p (Node v a' b')"
    using fx fy atp plt len by (intro repr_NodeI [of _ _ _ x y]) simp_all
  show ap: "addrs h' p (Node v a' b') = {p} \<union> addrs h x a' \<union> addrs h y b'"
    using fx fy atp by (simp add: addrs_Node [of _ _ x y])
  have main: "\<exists>s'. repr h' q s' \<and> reduces s s' \<and> addrs h' q s' \<subseteq> addrs h q s \<union> X"
    if "repr h q s" for q s
    using that
  proof (induction s arbitrary: q)
    case (Leaf w)
    show ?case
    proof (cases "q = p")
      case True
      with Leaf p(1) repr_functional show ?thesis by blast
    next
      case False
      with Leaf same [OF False] len show ?thesis
        by (intro exI [of _ "Leaf w"]) (auto intro: red_refl)
    qed
  next
    case (Node w sl sr)
    show ?case
    proof (cases "q = p")
      case True
      with Node.prems have "repr h p (Node w sl sr)" by simp
      from repr_functional [OF this p(1)] have s: "Node w sl sr = Node v a b" .
      have "reduces (Node v a b) (Node v a' b')"
        using x(2) y(2) by (rule red_cong)
      moreover have "addrs h' p (Node v a' b') \<subseteq> addrs h p (Node v a b) \<union> X"
        using ap x(4) y(4) by auto
      ultimately show ?thesis using rp True s by blast
    next
      case False
      from Node.prems obtain ql qr where c: "q < length h" "val (h ! q) = w"
        "left (h ! q) = Some ql" "right (h ! q) = Some qr" "repr h ql sl" "repr h qr sr"
        "addrs h q (Node w sl sr) = {q} \<union> addrs h ql sl \<union> addrs h qr sr"
        by (rule repr_NodeE)
      from Node.IH(1) [OF c(5)] obtain sl' where l: "repr h' ql sl'" "reduces sl sl'"
        "addrs h' ql sl' \<subseteq> addrs h ql sl \<union> X" by blast
      from Node.IH(2) [OF c(6)] obtain sr' where r: "repr h' qr sr'" "reduces sr sr'"
        "addrs h' qr sr' \<subseteq> addrs h qr sr \<union> X" by blast
      have "repr h' q (Node w sl' sr')"
        using c l(1) r(1) same [OF False] len by (intro repr_NodeI [of _ _ _ ql qr]) simp_all
      moreover have "reduces (Node w sl sr) (Node w sl' sr')"
        using l(2) r(2) by (rule red_cong)
      moreover have "addrs h' q (Node w sl' sr') = {q} \<union> addrs h' ql sl' \<union> addrs h' qr sr'"
        using c same [OF False] by (simp add: addrs_Node [of _ _ ql qr])
      then have "addrs h' q (Node w sl' sr') \<subseteq> addrs h q (Node w sl sr) \<union> X"
        using c(7) l(3) r(3) by auto
      ultimately show ?thesis by blast
    qed
  qed
  show "modifies X h h'"
    unfolding modifies_def
  proof (intro conjI allI impI)
    fix q assume "q < length h" "q \<notin> X"
    with p(2) have "q \<noteq> p" by auto
    then show "h' ! q = h ! q" by (rule same)
  qed (use main len in auto)
qed

lemma repr_val: "repr h p t \<Longrightarrow> val (h ! p) = root_val t"
  by (cases t) (auto simp: repr_Node_iff)

lemma leaf_token_not_op: "isdigit w \<or> isalpha w \<Longrightarrow> w \<noteq> ''+'' \<and> w \<noteq> ''*''"
  by (auto simp: isdigit_def isalpha_def is_digit_char_def is_alpha_char_def)

lemma root_val_facts:
  assumes "parser_tree t"
  shows "root_val t = ''0'' \<longleftrightarrow> t = Leaf ''0''"
    and "root_val t = ''1'' \<longleftrightarrow> t = Leaf ''1''"
    and "isdigit (root_val t) \<longleftrightarrow> is_literal t"
    and "root_val t = ''+'' \<longleftrightarrow> is_sum t"
    and "is_literal t \<Longrightarrow> int_of_str (root_val t) = literal_val t"
  using assms leaf_token_not_op by (cases t; auto)+

lemma repr_new_leaf:
  "repr (h @ [\<lparr>val = w, left = None, right = None\<rparr>]) (length h) (Leaf w)"
  by simp

lemma repr_append: "repr h p t \<Longrightarrow> repr (h @ xs) p t \<and> addrs (h @ xs) p t = addrs h p t"
proof -
  assume r: "repr h p t"
  have "\<forall>q \<in> addrs h p t. (h @ xs) ! q = h ! q"
    using addrs_bound [OF r] by (auto simp: nth_append)
  from repr_frame [OF r _ this] show ?thesis by simp
qed

lemma tree_shaped_frame:
  assumes "repr h p t" "length h \<le> length h'" "\<forall>q \<in> addrs h p t. h' ! q = h ! q"
  shows "tree_shaped h' p t = tree_shaped h p t"
  using assms
proof (induction t arbitrary: p)
  case (Leaf v)
  show ?case by simp
next
  case (Node v l r)
  from Node.prems(1) obtain pl pr where a: "p < length h" "val (h ! p) = v"
    "left (h ! p) = Some pl" "right (h ! p) = Some pr" "repr h pl l" "repr h pr r"
    "addrs h p (Node v l r) = {p} \<union> addrs h pl l \<union> addrs h pr r"
    by (rule repr_NodeE)
  from Node.prems(3) a(7) have same: "h' ! p = h ! p"
    and sl: "\<forall>q \<in> addrs h pl l. h' ! q = h ! q" and sr: "\<forall>q \<in> addrs h pr r. h' ! q = h ! q"
    by auto
  from repr_frame [OF a(5) Node.prems(2) sl] repr_frame [OF a(6) Node.prems(2) sr]
    Node.IH(1) [OF a(5) Node.prems(2) sl] Node.IH(2) [OF a(6) Node.prems(2) sr]
  show ?case using a same by simp
qed

lemma build_correct:
  "\<exists>xs p. build h t = (h @ xs, Some p) \<and> repr (h @ xs) p t \<and> tree_shaped (h @ xs) p t \<and>
     addrs (h @ xs) p t \<subseteq> {length h..<length (h @ xs)}"
proof (induction t arbitrary: h)
  case (Leaf v)
  show ?case
    by (rule exI [of _ "[\<lparr>val = v, left = None, right = None\<rparr>]"]) (simp add: new_node_def)
next
  case (Node v l r)
  from Node.IH(1) [of h] obtain xs pl where l: "build h l = (h @ xs, Some pl)"
    "repr (h @ xs) pl l" "tree_shaped (h @ xs) pl l"
    "addrs (h @ xs) pl l \<subseteq> {length h..<length (h @ xs)}" by blast
  from Node.IH(2) [of "h @ xs"] obtain ys pr where r: "build (h @ xs) r = ((h @ xs) @ ys, Some pr)"
    "repr ((h @ xs) @ ys) pr r" "tree_shaped ((h @ xs) @ ys) pr r"
    "addrs ((h @ xs) @ ys) pr r \<subseteq> {length (h @ xs)..<length ((h @ xs) @ ys)}" by blast
  let ?n = "\<lparr>val = v, left = Some pl, right = Some pr\<rparr>"
  let ?h2 = "(h @ xs) @ ys"
  let ?h3 = "?h2 @ [?n]"
  let ?p = "length ?h2"
  have res: "build h (Node v l r) = (h @ (xs @ ys @ [?n]), Some ?p)"
    using l(1) r(1) by (simp add: new_node_def)
  note l2 = repr_append [OF l(2), of ys]
  note l3 = repr_append [OF conjunct1 [OF l2], of "[?n]"]
  note r3 = repr_append [OF r(2), of "[?n]"]
  have at: "?h3 ! ?p = ?n" by (simp add: nth_append)
  have rp: "repr ?h3 ?p (Node v l r)"
    by (rule repr_NodeI [of _ _ _ pl pr]) (use l3 r3 at in simp_all)
  have ad: "addrs ?h3 ?p (Node v l r) = {?p} \<union> addrs (h @ xs) pl l \<union> addrs ?h2 pr r"
    using l2 l3 r3 at by (simp add: addrs_Node [of _ _ pl pr])
  have fl: "\<forall>q \<in> addrs (h @ xs) pl l. ?h3 ! q = (h @ xs) ! q"
    using addrs_bound [OF l(2)] by (auto simp: nth_append)
  have fr: "\<forall>q \<in> addrs ?h2 pr r. ?h3 ! q = ?h2 ! q"
    using addrs_bound [OF r(2)] by (auto simp: nth_append)
  have fl2: "\<forall>q \<in> addrs (h @ xs) pl l. ?h2 ! q = (h @ xs) ! q"
    using addrs_bound [OF l(2)] by (auto simp: nth_append)
  have tl: "tree_shaped ?h3 pl l"
    using tree_shaped_frame [OF l(2) _ fl] l(3) by simp
  have tr: "tree_shaped ?h3 pr r"
    using tree_shaped_frame [OF r(2) _ fr] r(3) by simp
  have dj: "addrs ?h3 pl l \<inter> addrs ?h3 pr r = {}"
    using l3 l2 r3 l(4) r(4) by (fastforce simp: subset_iff disjoint_iff)
  have ts: "tree_shaped ?h3 ?p (Node v l r)"
    using at tl tr dj by simp
  have sub: "addrs ?h3 ?p (Node v l r) \<subseteq> {length h..<length ?h3}"
    unfolding ad using l(4) r(4) by auto
  show ?case
    by (rule exI [of _ "xs @ ys @ [?n]"], rule exI [of _ ?p]) (use res rp ts sub in simp)
qed

lemma build_repr:
  obtains h p where "build h0 t = (h, Some p)" "repr h p t" "tree_shaped h p t"
  using build_correct [of h0 t] by blast

lemma tree_of_repr: "repr h p t \<Longrightarrow> tree_of h (Some p) = Some (Inr t)"
proof (induction t arbitrary: p)
  case (Leaf v)
  then show ?case by (subst tree_of.simps) simp
next
  case (Node v l r)
  from Node.prems obtain pl pr where a: "val (h ! p) = v" "left (h ! p) = Some pl"
    "right (h ! p) = Some pr" "repr h pl l" "repr h pr r"
    by (rule repr_NodeE)
  from Node.IH(1) [OF a(4)] Node.IH(2) [OF a(5)] a(1,2,3) show ?case
    by (subst tree_of.simps) simp
qed


lemma ast_eq_None [simp]:
  "ast_eq h None y = Some (y = None)" "ast_eq h (Some a) None = Some False"
  by (subst ast_eq.simps, simp)+

lemma ast_eq_repr: "repr h a s \<Longrightarrow> repr h b t \<Longrightarrow> ast_eq h (Some a) (Some b) = Some (s = t)"
proof (induction s arbitrary: a b t)
  case (Leaf v)
  show ?case
  proof (cases t)
    case (Leaf w)
    with Leaf.prems show ?thesis
      by (subst ast_eq.simps) auto
  next
    case (Node w l r)
    from Leaf.prems(2) [unfolded Node] obtain pl where "left (h ! b) = Some pl"
      by (rule repr_NodeE)
    with Leaf.prems(1) Node show ?thesis
      by (subst ast_eq.simps) auto
  qed
next
  case (Node v l r)
  from Node.prems(1) obtain pl pr where a: "val (h ! a) = v" "left (h ! a) = Some pl"
    "right (h ! a) = Some pr" "repr h pl l" "repr h pr r"
    by (rule repr_NodeE)
  show ?case
  proof (cases t)
    case (Leaf w)
    with Node.prems(2) a show ?thesis
      by (subst ast_eq.simps) auto
  next
    case n: (Node w l' r')
    from Node.prems(2) [unfolded n] obtain ql qr where b: "val (h ! b) = w" "left (h ! b) = Some ql"
      "right (h ! b) = Some qr" "repr h ql l'" "repr h qr r'"
      by (rule repr_NodeE)
    from Node.IH(1) [OF a(4) b(4)] Node.IH(2) [OF a(5) b(5)] a(1,2,3) b(1,2,3) n show ?thesis
      by (subst ast_eq.simps) auto
  qed
qed

subsection \<open>The rules at one node\<close>

lemma rewrite_rules_correct:
  assumes rp: "repr h p (Node v l r)" and pt: "parser_tree (Node v l r)"
  shows "\<exists>h' p'. rewrite_rules h p = Inr (h', Some p') \<and> repr h' p' (spec_rules v l r) \<and>
     (\<exists>xs. h' = h @ xs) \<and>
     addrs h' p' (spec_rules v l r) \<subseteq> addrs h p (Node v l r) \<union> {length h..} \<and>
     (spec_rules v l r = Node v l r \<longrightarrow> h' = h \<and> p' = p)"
proof -
  from rp obtain pl pr where a: "p < length h" "val (h ! p) = v" "left (h ! p) = Some pl"
    "right (h ! p) = Some pr" "repr h pl l" "repr h pr r"
    "addrs h p (Node v l r) = {p} \<union> addrs h pl l \<union> addrs h pr r"
    by (rule repr_NodeE)
  from pt have ptl: "parser_tree l" and ptr: "parser_tree r" and v: "v = ''+'' \<or> v = ''*''"
    by auto
  note fl = root_val_facts [OF ptl] and fr = root_val_facts [OF ptr]
  have lv: "val (h ! pl) = root_val l" and rv: "val (h ! pr) = root_val r"
    using a by (simp_all add: repr_val)
  define goal where "goal = (\<lambda>(res :: outcome) t'. \<exists>h' p'. res = Inr (h', Some p') \<and> repr h' p' t' \<and>
     (\<exists>xs. h' = h @ xs) \<and> addrs h' p' t' \<subseteq> addrs h p (Node v l r) \<union> {length h..} \<and>
     (t' = Node v l r \<longrightarrow> h' = h \<and> p' = p))"
  have sl: "size l < size (Node v l r)" and sr: "size r < size (Node v l r)" by simp_all
  have keep_l: "goal (Inr (h, Some pl)) l"
    unfolding goal_def using a sl by auto
  have keep_r: "goal (Inr (h, Some pr)) r"
    unfolding goal_def using a sr by auto
  have fresh: "goal (Inr (new_node h w None None)) (Leaf w)" for w
    unfolding goal_def by (auto simp: new_node_def)
  have same: "goal (Inr (h, Some p)) (Node v l r)"
    unfolding goal_def using rp by auto
  have dist: "goal (let a = left (h ! p); b = left (h ! pr); c = right (h ! pr);
        (h1, ab) = new_node h ''*'' a b; (h2, ac) = new_node h1 ''*'' a c
      in Inr (new_node h2 ''+'' ab ac)) (distribute l r)" if "is_sum r"
  proof -
    from that obtain b c where r: "r = Node ''+'' b c" by (cases r) auto
    from a(6) [unfolded r] obtain rb rc where c: "left (h ! pr) = Some rb"
      "right (h ! pr) = Some rc" "repr h rb b" "repr h rc c"
      "addrs h pr (Node ''+'' b c) = {pr} \<union> addrs h rb b \<union> addrs h rc c"
      by (rule repr_NodeE)
    let ?n1 = "\<lparr>val = ''*'', left = Some pl, right = Some rb\<rparr>"
    let ?n2 = "\<lparr>val = ''*'', left = Some pl, right = Some rc\<rparr>"
    let ?n3 = "\<lparr>val = ''+'', left = Some (length h), right = Some (Suc (length h))\<rparr>"
    let ?h' = "h @ [?n1, ?n2, ?n3]"
    have res: "(let a = left (h ! p); b = left (h ! pr); c = right (h ! pr);
        (h1, ab) = new_node h ''*'' a b; (h2, ac) = new_node h1 ''*'' a c
      in Inr (new_node h2 ''+'' ab ac)) = Inr (?h', Some (Suc (Suc (length h))))"
      using a c by (simp add: new_node_def Let_def)
    note el = repr_append [OF a(5), of "[?n1, ?n2, ?n3]"]
      and eb = repr_append [OF c(3), of "[?n1, ?n2, ?n3]"]
      and ec = repr_append [OF c(4), of "[?n1, ?n2, ?n3]"]
    have r1: "repr ?h' (length h) (Node ''*'' l b)"
      using el eb by (intro repr_NodeI [of _ _ _ pl rb]) (simp_all add: nth_append)
    have a1: "addrs ?h' (length h) (Node ''*'' l b) = {length h} \<union> addrs h pl l \<union> addrs h rb b"
      using el eb by (simp add: addrs_Node [of _ _ pl rb] nth_append)
    have r2: "repr ?h' (Suc (length h)) (Node ''*'' l c)"
      using el ec by (intro repr_NodeI [of _ _ _ pl rc]) (simp_all add: nth_append)
    have a2: "addrs ?h' (Suc (length h)) (Node ''*'' l c) =
        {Suc (length h)} \<union> addrs h pl l \<union> addrs h rc c"
      using el ec by (simp add: addrs_Node [of _ _ pl rc] nth_append)
    have r3: "repr ?h' (Suc (Suc (length h))) (distribute l r)"
      unfolding r distribute.simps
      by (rule repr_NodeI [of _ _ _ "length h" "Suc (length h)"])
        (use r1 r2 in \<open>simp_all add: nth_append\<close>)
    have a3: "addrs ?h' (Suc (Suc (length h))) (distribute l r) =
        {Suc (Suc (length h))} \<union> addrs ?h' (length h) (Node ''*'' l b)
          \<union> addrs ?h' (Suc (length h)) (Node ''*'' l c)"
      unfolding r distribute.simps
      by (simp add: addrs_Node [of _ _ "length h" "Suc (length h)"] nth_append)
    have sub: "addrs ?h' (Suc (Suc (length h))) (distribute l r)
        \<subseteq> addrs h p (Node v l r) \<union> {length h..}"
      unfolding a3 a1 a2 using a(7) c(5) r by auto
    have ne: "distribute l r \<noteq> Node v l r"
      unfolding r by auto
    show ?thesis
      unfolding res goal_def using r3 sub ne by blast
  qed
  have unfold: "rewrite_rules h p =
     (if v = ''+'' \<and> r = Leaf ''0'' then Inr (h, Some pl)
      else if v = ''+'' \<and> l = Leaf ''0'' then Inr (h, Some pr)
      else if v = ''*'' \<and> r = Leaf ''1'' then Inr (h, Some pl)
      else if v = ''*'' \<and> l = Leaf ''1'' then Inr (h, Some pr)
      else if v = ''*'' \<and> (l = Leaf ''0'' \<or> r = Leaf ''0'') then Inr (new_node h ''0'' None None)
      else if v = ''+'' \<and> is_literal l \<and> is_literal r then
        Inr (new_node h (str_of_int (literal_val l + literal_val r)) None None)
      else if v = ''*'' \<and> is_literal l \<and> is_literal r then
        Inr (new_node h (str_of_int (literal_val l * literal_val r)) None None)
      else if v = ''*'' \<and> is_sum r then
        (let a = left (h ! p); b = left (h ! pr); c = right (h ! pr);
             (h1, ab) = new_node h ''*'' a b; (h2, ac) = new_node h1 ''*'' a c
         in Inr (new_node h2 ''+'' ab ac))
      else Inr (h, Some p))"
  proof -
    have c: "(val (h ! pr) = ''0'') = (r = Leaf ''0'')" "(val (h ! pl) = ''0'') = (l = Leaf ''0'')"
      "(val (h ! pr) = ''1'') = (r = Leaf ''1'')" "(val (h ! pl) = ''1'') = (l = Leaf ''1'')"
      "isdigit (val (h ! pl)) = is_literal l" "isdigit (val (h ! pr)) = is_literal r"
      "(val (h ! pr) = ''+'') = is_sum r"
      using lv rv fl(1-4) fr(1-4) by simp_all
    have d: "is_literal l \<Longrightarrow> int_of_str (val (h ! pl)) = literal_val l"
      "is_literal r \<Longrightarrow> int_of_str (val (h ! pr)) = literal_val r"
      using lv rv fl(5) fr(5) by simp_all
    have m: "(''0'' \<in> set [val (h ! pl), val (h ! pr)]) = (l = Leaf ''0'' \<or> r = Leaf ''0'')"
      using c(1,2) by auto
    show ?thesis
      unfolding rewrite_rules_def Let_def a(2,3,4) option.case m c
      using d by (auto simp del: set_simps)
  qed
  have "goal (rewrite_rules h p) (spec_rules v l r)"
    unfolding unfold spec_rules_def
    using keep_l keep_r fresh same dist
    by (auto simp del: distribute.simps)
  then show ?thesis
    unfolding goal_def .
qed

subsection \<open>One pass\<close>

lemma rewrite_h_leaf:
  "left (h ! p) = None \<Longrightarrow> rewrite_h h (Some p) = Some (Inr (h, Some p))"
  by (subst rewrite_h.simps) simp

lemma rewrite_h_node:
  assumes "left (h ! p) = Some pl"
    and "rewrite_h h (Some pl) = Some (Inr (h1, l'))"
    and "rewrite_h (h1[p := (h1 ! p)\<lparr>left := l'\<rparr>]) (right ((h1[p := (h1 ! p)\<lparr>left := l'\<rparr>]) ! p))
       = Some (Inr (h2, r'))"
  shows "rewrite_h h (Some p) = Some (rewrite_rules (h2[p := (h2 ! p)\<lparr>right := r'\<rparr>]) p)"
  using assms by (subst rewrite_h.simps) (simp add: Let_def)

lemma node_eqI:
  "val n = v \<Longrightarrow> left n = l \<Longrightarrow> right n = r \<Longrightarrow> n = \<lparr>val = v, left = l, right = r\<rparr>"
  by (cases n) simp

lemma left_update_same: "left n = x \<Longrightarrow> n\<lparr>left := x\<rparr> = n"
  by (cases n) simp

lemma right_update_same: "right n = x \<Longrightarrow> n\<lparr>right := x\<rparr> = n"
  by (cases n) simp

text \<open>
  On the objects of a parser tree a pass returns, raises nothing, and establishes
  \<open>rewrite_post\<close>.  The induction is on the measure of the tree, not on the tree: the
  object may be shared, and what its fields hold when the pass reaches it a second time is
  a tree the first visit left behind.
\<close>

theorem rewrite_h_correct:
  assumes "repr h p t" "parser_tree t"
  shows "\<exists>h' p' t'. rewrite_h h (Some p) = Some (Inr (h', Some p')) \<and> rewrite_post h p t h' p' t'"
  using assms
proof (induction "mu t" arbitrary: h p t rule: less_induct)
  case less
  show ?case
  proof (cases t)
    case (Leaf w)
    with less.prems have "left (h ! p) = None" by simp
    then have "rewrite_h h (Some p) = Some (Inr (h, Some p))" by (rule rewrite_h_leaf)
    moreover have "\<exists>ta. repr h p ta \<and> reduces ta t"
      using less.prems(1) red_refl by blast
    then have "rewrite_post h p t h p t"
      unfolding rewrite_post_def using less.prems(1) Leaf
      by (simp add: modifies_refl)
    ultimately show ?thesis by blast
  next
    case (Node v l r)
    note t = Node
    from less.prems(1) [unfolded t] obtain pl pr where a: "p < length h" "val (h ! p) = v"
      "left (h ! p) = Some pl" "right (h ! p) = Some pr" "repr h pl l" "repr h pr r"
      "addrs h p (Node v l r) = {p} \<union> addrs h pl l \<union> addrs h pr r"
      by (rule repr_NodeE)
    from less.prems(2) t have ptl: "parser_tree l" and ptr: "parser_tree r" by auto
    define X where "X = addrs h p t \<union> {length h..}"
    define XA where "XA = addrs h pl l \<union> {length h..}"
    have XA_X: "XA \<subseteq> X" unfolding XA_def X_def t a(7) by auto
    have pX: "p \<in> X" unfolding X_def by simp
    have hp: "h ! p = \<lparr>val = v, left = Some pl, right = Some pr\<rparr>"
      using a(2,3,4) by (rule node_eqI)
    have p_pl: "p \<notin> addrs h pl l"
      by (rule acyclic_child [OF less.prems(1) a(5)]) (simp add: t)
    have p_pr: "p \<notin> addrs h pr r"
      by (rule acyclic_child [OF less.prems(1) a(6)]) (simp add: t)
    have pXA: "p \<notin> XA" unfolding XA_def using p_pl a(1) by simp

    \<comment> \<open>the left child\<close>
    have "mu l < mu t" unfolding t by (rule mu_left)
    from less.hyps [OF this a(5) ptl] obtain h1 l1 l' where
      A: "rewrite_h h (Some pl) = Some (Inr (h1, Some l1))" and postA: "rewrite_post h pl l h1 l1 l'"
      by blast
    from postA have A1: "repr h1 l1 l'" and mA: "modifies XA h h1"
      and A3: "addrs h1 l1 l' \<subseteq> XA"
      and A4: "\<exists>ta. repr h1 pl ta \<and> reduces ta l'"
      and A5: "nf l \<longrightarrow> h1 = h \<and> l1 = pl" and A6: "\<not> nf l \<longrightarrow> mu l' < mu l"
      and A7: "tree_shaped h pl l \<longrightarrow> l' = rewrite_spec l"
      unfolding rewrite_post_def XA_def by blast+
    from mA have len1: "length h \<le> length h1" and h1p: "h1 ! p = h ! p"
      using a(1) pXA unfolding modifies_def by auto
    from mA a(5) obtain la where la: "repr h1 pl la" "reduces l la"
      "addrs h1 pl la \<subseteq> addrs h pl l \<union> XA" by (rule modifies_reprD)
    from mA a(6) obtain r1 where r1: "repr h1 pr r1" "reduces r r1"
      "addrs h1 pr r1 \<subseteq> addrs h pr r \<union> XA" by (rule modifies_reprD)
    from A4 la(1) have la_l': "reduces la l'" by (auto dest: repr_functional)
    have p1: "repr h1 p (Node v la r1)"
      using a(1) len1 la(1) r1(1) by (intro repr_NodeI [of _ _ _ pl pr]) (simp_all add: h1p hp)
    have ap1: "addrs h1 p (Node v la r1) = {p} \<union> addrs h1 pl la \<union> addrs h1 pr r1"
      by (simp add: addrs_Node [of _ _ pl pr] h1p hp)

    \<comment> \<open>\<^verbatim>\<open>node.left = rewrite(node.left)\<close>\<close>
    define h1' where "h1' = h1[p := (h1 ! p)\<lparr>left := Some l1\<rparr>]"
    have h1'_eq: "h1' = h1[p := \<lparr>val = v, left = Some l1, right = Some pr\<rparr>]"
      unfolding h1'_def by (simp add: h1p hp)
    have p_l1: "p \<notin> addrs h1 l1 l'" using A3 pXA by auto
    have p_r1: "p \<notin> addrs h1 pr r1"
      by (rule acyclic_child [OF p1 r1(1)]) simp
    note B = modifies_assign [where X = X, OF p1 pX A1 la_l' p_l1 _ r1(1) red_refl p_r1 _ h1'_eq]
    have B_x: "addrs h1 l1 l' \<subseteq> addrs h1 p (Node v la r1) \<union> X" using A3 XA_X by auto
    have B_y: "addrs h1 pr r1 \<subseteq> addrs h1 p (Node v la r1) \<union> X" using ap1 by auto
    note mB = B(1) [OF B_x B_y] and p1' = B(2) [OF B_x B_y] and ap1' = B(3) [OF B_x B_y]
      and l1' = B(4) [OF B_x B_y] and r1' = B(5) [OF B_x B_y]
    have len1': "length h1' = length h1" unfolding h1'_def by simp
    have h1'p: "h1' ! p = \<lparr>val = v, left = Some l1, right = Some pr\<rparr>"
      unfolding h1'_eq using a(1) len1 by simp

    \<comment> \<open>the right child\<close>
    define XC where "XC = addrs h1' pr r1 \<union> {length h1'..}"
    have XC_X: "XC \<subseteq> X"
      unfolding XC_def using r1' r1(3) XA_X len1 len1' a(7) t
      unfolding X_def by auto
    have pXC: "p \<notin> XC"
      unfolding XC_def using r1' p_r1 a(1) len1 len1' by auto
    have ptr1: "parser_tree r1" using r1(2) ptr by (rule reduces_parser_tree)
    have "mu r1 \<le> mu r" using r1(2) by (rule reduces_mu_le)
    also have "mu r < mu t" unfolding t by (rule mu_right)
    finally have "mu r1 < mu t" .
    from less.hyps [OF this conjunct1 [OF r1'] ptr1] obtain h2 r2 r' where
      C: "rewrite_h h1' (Some pr) = Some (Inr (h2, Some r2))" and postC: "rewrite_post h1' pr r1 h2 r2 r'"
      by blast
    from postC have C1: "repr h2 r2 r'" and mC: "modifies XC h1' h2"
      and C3: "addrs h2 r2 r' \<subseteq> XC"
      and C4: "\<exists>ta. repr h2 pr ta \<and> reduces ta r'"
      and C5: "nf r1 \<longrightarrow> h2 = h1' \<and> r2 = pr" and C6: "\<not> nf r1 \<longrightarrow> mu r' < mu r1"
      and C7: "tree_shaped h1' pr r1 \<longrightarrow> r' = rewrite_spec r1"
      unfolding rewrite_post_def XC_def by blast+
    from mC have len2: "length h1' \<le> length h2" and h2p: "h2 ! p = h1' ! p"
      using a(1) len1 len1' pXC unfolding modifies_def by auto
    from mC conjunct1 [OF l1'] obtain l'' where l'': "repr h2 l1 l''" "reduces l' l''"
      "addrs h2 l1 l'' \<subseteq> addrs h1' l1 l' \<union> XC" by (rule modifies_reprD)
    from mC conjunct1 [OF r1'] obtain rb where rb: "repr h2 pr rb" "reduces r1 rb"
      by (rule modifies_reprD)
    from C4 rb(1) have rb_r': "reduces rb r'" by (auto dest: repr_functional)
    have plt2: "p < length h2" using a(1) len1 len1' len2 by simp
    have p2: "repr h2 p (Node v l'' rb)"
      using plt2 l''(1) rb(1) by (intro repr_NodeI [of _ _ _ l1 pr]) (simp_all add: h2p h1'p)
    have ap2: "addrs h2 p (Node v l'' rb) = {p} \<union> addrs h2 l1 l'' \<union> addrs h2 pr rb"
      by (simp add: addrs_Node [of _ _ l1 pr] h2p h1'p)

    \<comment> \<open>\<^verbatim>\<open>node.right = rewrite(node.right)\<close>\<close>
    define h2' where "h2' = h2[p := (h2 ! p)\<lparr>right := Some r2\<rparr>]"
    have h2'_eq: "h2' = h2[p := \<lparr>val = v, left = Some l1, right = Some r2\<rparr>]"
      unfolding h2'_def by (simp add: h2p h1'p)
    have p_l'': "p \<notin> addrs h2 l1 l''"
      by (rule acyclic_child [OF p2 l''(1)]) simp
    have p_r2: "p \<notin> addrs h2 r2 r'" using C3 pXC by auto
    note D = modifies_assign [where X = X, OF p2 pX l''(1) red_refl p_l'' _ C1 rb_r' p_r2 _ h2'_eq]
    have D_x: "addrs h2 l1 l'' \<subseteq> addrs h2 p (Node v l'' rb) \<union> X" using ap2 by auto
    have D_y: "addrs h2 r2 r' \<subseteq> addrs h2 p (Node v l'' rb) \<union> X" using C3 XC_X by auto
    note mD = D(1) [OF D_x D_y] and p2' = D(2) [OF D_x D_y] and ap2' = D(3) [OF D_x D_y]
    have len2': "length h2' = length h2" unfolding h2'_def by simp

    \<comment> \<open>the rules\<close>
    have red_l: "reduces l l''" using la(2) la_l' l''(2) by (blast intro: red_trans)
    have red_r: "reduces r r'" using r1(2) rb(2) rb_r' by (blast intro: red_trans)
    have v: "v = ''+'' \<or> v = ''*''" using less.prems(2) t by simp
    have pt'': "parser_tree (Node v l'' r')"
      using reduces_parser_tree [OF red_l ptl] reduces_parser_tree [OF red_r ptr] v by simp
    define t' where "t' = spec_rules v l'' r'"
    from rewrite_rules_correct [OF p2' pt''] obtain h3 p3 xs where
      E: "rewrite_rules h2' p = Inr (h3, Some p3)" and E1: "repr h3 p3 t'"
      and E2: "h3 = h2' @ xs"
      and E3: "addrs h3 p3 t' \<subseteq> addrs h2' p (Node v l'' r') \<union> {length h2'..}"
      and E4: "t' = Node v l'' r' \<longrightarrow> h3 = h2' \<and> p3 = p"
      unfolding t'_def by blast
    have mE: "modifies X h2' h3" unfolding E2 by (rule modifies_append)

    have result: "rewrite_h h (Some p) = Some (Inr (h3, Some p3))"
    proof -
      have "rewrite_h (h1[p := (h1 ! p)\<lparr>left := Some l1\<rparr>])
          (right ((h1[p := (h1 ! p)\<lparr>left := Some l1\<rparr>]) ! p)) = Some (Inr (h2, Some r2))"
        using C h1'p unfolding h1'_def by simp
      from rewrite_h_node [OF a(3) A this] E show ?thesis
        unfolding h2'_def by simp
    qed

    have m: "modifies X h h3"
      using modifies_mono [OF mA XA_X] mB modifies_mono [OF mC XC_X] mD mE
      by (blast intro: modifies_trans)
    have fp: "addrs h3 p3 t' \<subseteq> X"
    proof -
      have "addrs h2 l1 l'' \<subseteq> X"
        using l''(3) l1' A3 XA_X XC_X by auto
      moreover have "addrs h2 r2 r' \<subseteq> X" using C3 XC_X by auto
      moreover have "{length h2'..} \<subseteq> X"
        unfolding X_def using len1 len1' len2 len2' by auto
      ultimately show ?thesis using E3 ap2' pX by auto
    qed
    have inplace: "\<exists>ta. repr h3 p ta \<and> reduces ta t'"
      using repr_append [OF p2', of xs] red_rule [of v l'' r'] unfolding E2 t'_def by blast

    have mu_l: "mu l'' \<le> mu l" using red_l by (rule reduces_mu_le)
    have mu_r: "mu r' \<le> mu r" using red_r by (rule reduces_mu_le)
    have mu_t': "mu t' \<le> mu (Node v l'' r')"
      unfolding t'_def using red_rule by (rule reduces_mu_le)

    have noop: "h3 = h \<and> p3 = p" and same: "t' = t" if "nf t"
    proof -
      from that t have nl: "nf l" and nr: "nf r" and ns: "spec_rules v l r = Node v l r" by auto
      from A5 nl have e1: "h1 = h" "l1 = pl" by auto
      then have e1': "h1' = h" unfolding h1'_def using a(3) by (simp add: left_update_same)
      with r1' a(6) have "r1 = r" by (auto dest: repr_functional)
      with C5 nr have e2: "h2 = h" "r2 = pr" using e1' by auto
      then have e2': "h2' = h" unfolding h2'_def using a(4) by (simp add: right_update_same)
      from l''(1) a(5) e1 e2 have "l'' = l" by (auto dest: repr_functional)
      moreover from C1 a(6) e2 have "r' = r" by (auto dest: repr_functional)
      ultimately have "t' = Node v l'' r'" and "t' = t" unfolding t'_def t using ns by simp_all
      with E4 e2' show "h3 = h \<and> p3 = p" and "t' = t" by simp_all
    qed
    have decr: "mu t' < mu t" if nnf: "\<not> nf t"
    proof (cases "nf l")
      case False
      with A6 have "mu l' < mu l" by simp
      moreover have "mu l'' \<le> mu l'" using l''(2) by (rule reduces_mu_le)
      ultimately have "mu l'' < mu l" by simp
      with mu_r have "mu (Node v l'' r') < mu (Node v l r)"
        by (intro mu_Node_strict) simp_all
      with mu_t' show ?thesis unfolding t by simp
    next
      case nl: True
      from A5 nl have e1: "h1 = h" "l1 = pl" by auto
      then have e1': "h1' = h" unfolding h1'_def using a(3) by (simp add: left_update_same)
      with r1' a(6) have r1r: "r1 = r" by (auto dest: repr_functional)
      show ?thesis
      proof (cases "nf r")
        case False
        with C6 r1r have "mu r' < mu r" by simp
        with mu_l have "mu (Node v l'' r') < mu (Node v l r)"
          by (intro mu_Node_strict) simp_all
        with mu_t' show ?thesis unfolding t by simp
      next
        case nr: True
        with C5 r1r have e2: "h2 = h" "r2 = pr" using e1' by auto
        from l''(1) a(5) e1 e2 have "l'' = l" by (auto dest: repr_functional)
        moreover from C1 a(6) e2 have "r' = r" by (auto dest: repr_functional)
        moreover from nnf nl nr t have "spec_rules v l r \<noteq> Node v l r" by simp
        ultimately show ?thesis
          unfolding t'_def t using mu_spec_rules [of v l r] by simp
      qed
    qed
    have exact: "t' = rewrite_spec t" if ts: "tree_shaped h p t"
    proof -
      from ts t a(3,4) have dj: "addrs h pl l \<inter> addrs h pr r = {}"
        and tsl: "tree_shaped h pl l" and tsr: "tree_shaped h pr r" by simp_all
      from A7 tsl have l': "l' = rewrite_spec l" by simp
      have "addrs h pr r \<inter> XA = {}"
        unfolding XA_def using dj addrs_bound [OF a(6)] by auto
      from modifies_outside [OF mA a(6) this] have o1: "repr h1 pr r" "addrs h1 pr r = addrs h pr r"
        by simp_all
      with r1(1) have r1r: "r1 = r" by (auto dest: repr_functional)
      have "\<forall>q\<in>addrs h pr r. h1' ! q = h ! q"
      proof
        fix q assume q: "q \<in> addrs h pr r"
        with p_pr have "q \<noteq> p" by auto
        then have "h1' ! q = h1 ! q" unfolding h1'_def by simp
        moreover have "q \<notin> XA" "q < length h"
          using q dj addrs_bound [OF a(6)] unfolding XA_def by auto
        with mA have "h1 ! q = h ! q" unfolding modifies_def by simp
        ultimately show "h1' ! q = h ! q" by simp
      qed
      from tree_shaped_frame [OF a(6) _ this] tsr len1 len1'
      have "tree_shaped h1' pr r" by simp
      with C7 r1r have r': "r' = rewrite_spec r" by simp
      have "addrs h1' l1 l' \<inter> XC = {}"
      proof -
        have "addrs h1' l1 l' \<subseteq> addrs h pl l \<union> {length h..<length h1}"
          using l1' A3 addrs_bound [OF A1] unfolding XA_def by auto
        moreover have "XC = addrs h pr r \<union> {length h1..}"
          unfolding XC_def using r1' o1(2) r1r len1' by simp
        ultimately show ?thesis
          using dj addrs_bound [OF a(6)] addrs_bound [OF a(5)] len1
          by (fastforce simp: subset_iff disjoint_iff)
      qed
      from modifies_outside [OF mC conjunct1 [OF l1'] this] l''(1)
      have "l'' = l'" by (auto dest: repr_functional)
      with l' r' show ?thesis unfolding t'_def t by simp
    qed
    have "rewrite_post h p t h3 p3 t'"
      unfolding rewrite_post_def
      using E1 m fp inplace noop decr exact unfolding X_def by blast
    with result show ?thesis by blast
  qed
qed

lemma rewrite_post_reduces: "rewrite_post h p t h' p' t' \<Longrightarrow> repr h p t \<Longrightarrow> reduces t t'"
proof -
  assume post: "rewrite_post h p t h' p' t'" and r: "repr h p t"
  from post have m: "modifies (addrs h p t \<union> {length h..}) h h'"
    and i: "\<exists>ta. repr h' p ta \<and> reduces ta t'"
    unfolding rewrite_post_def by blast+
  from m r obtain s where s: "repr h' p s" "reduces t s" by (rule modifies_reprD)
  from i s(1) have "reduces s t'" by (auto dest: repr_functional)
  with s(2) show ?thesis by (rule red_trans)
qed

lemma rewrite_h_fixpoint:
  assumes "repr h p t" "parser_tree t" "nf t"
  shows "rewrite_h h (Some p) = Some (Inr (h, Some p))"
  using rewrite_h_correct [OF assms(1,2)] assms(3) unfolding rewrite_post_def by auto

text \<open>
  The distributive rule stores one object under two parents, and a later pass, which
  rewrites the children of every node it visits, visits that object once for each
  parent.  For \<^verbatim>\<open>"(2*(3+(2*(3+c))))*(d+e)"\<close> the second pass therefore folds \<open>2 * 6\<close> to
  \<open>12\<close> inside the shared operand, which one pass over the tree value does not: the three
  texts are the tree after the first pass, the tree after the second pass, and the
  specification's pass applied to the tree after the first pass.
\<close>

lemma second_pass_on_shared_objects:
  "map_option (\<lambda>(t1, t2). (print_ast t1, print_ast t2, print_ast (rewrite_spec t1)))
     (two_passes (Node ''*''
        (Node ''*'' (Leaf ''2'')
           (Node ''+'' (Leaf ''3'')
              (Node ''*'' (Leaf ''2'') (Node ''+'' (Leaf ''3'') (Leaf ''c'')))))
        (Node ''+'' (Leaf ''d'') (Leaf ''e'')))) =
   Some (''((((2 * 3) + (2 * ((2 * 3) + (2 * c)))) * d) + (((2 * 3) + (2 * ((2 * 3) + (2 * c)))) * e))'',
         ''(((6 + (12 + (2 * (2 * c)))) * d) + ((6 + (12 + (2 * (2 * c)))) * e))'',
         ''(((6 + ((2 * 6) + (2 * (2 * c)))) * d) + ((6 + ((2 * 6) + (2 * (2 * c)))) * e))'')"
  by code_simp

text \<open>
  Claim C8.  Two statements, both with the rules in the specification's order \<open>x+0\<close>,
  \<open>0+x\<close>, \<open>x*1\<close>, \<open>1*x\<close>, \<open>x*0\<close>/\<open>0*x\<close>, constant folding, distributive expansion.
  \<^item> For every tree the parser produces, held in objects none of which is shared (as the
    parser allocates them), one call of \<^verbatim>\<open>rewrite\<close> returns, and the tree read from the
    reference it returns is the one the specification's pass computes: at every operator
    node both children are rewritten first, then the first rule that matches gives the
    result, and with no match the node is returned with its rewritten children.
  \<^item> At one operator node, shared or not, whose fields hold the trees \<open>l\<close> and \<open>r\<close> (its
    rewritten children): the rules of \<^verbatim>\<open>rewrite\<close> return an object whose tree is the result
    of the first rule of the specification that matches \<open>v\<close>, \<open>l\<close>, \<open>r\<close>; when no rule
    matches, they return the object itself and leave the store as it was.
\<close>

theorem rewrite_pass_refines_spec:
  "(parse_expression ts = Inr t \<and> repr h p t \<and> tree_shaped h p t \<longrightarrow>
      (\<exists>h' p'. rewrite_h h (Some p) = Some (Inr (h', Some p')) \<and>
         tree_of h' (Some p') = Some (Inr (rewrite_spec t)))) \<and>
   (parser_tree (Node v l r) \<and> repr g q (Node v l r) \<longrightarrow>
      (\<exists>g' q'. rewrite_rules g q = Inr (g', Some q') \<and>
         tree_of g' (Some q') = Some (Inr (spec_rules v l r)) \<and>
         (spec_rules v l r = Node v l r \<longrightarrow> g' = g \<and> q' = q)))"
proof -
  have a: "\<exists>h' p'. rewrite_h h (Some p) = Some (Inr (h', Some p')) \<and>
      tree_of h' (Some p') = Some (Inr (rewrite_spec t))"
    if b: "parse_expression ts = Inr t \<and> repr h p t \<and> tree_shaped h p t"
  proof -
    from b have pt: "parser_tree t" by (blast intro: parse_expression_shape)
    from b have rp: "repr h p t" and ts: "tree_shaped h p t" by simp_all
    from rewrite_h_correct [OF rp pt] obtain h' p' t' where
      r: "rewrite_h h (Some p) = Some (Inr (h', Some p'))" "rewrite_post h p t h' p' t'"
      by blast
    from r(2) ts have "repr h' p' (rewrite_spec t)" by (auto simp: rewrite_post_def)
    from tree_of_repr [OF this] r(1) show ?thesis by blast
  qed
  have c: "\<exists>g' q'. rewrite_rules g q = Inr (g', Some q') \<and>
      tree_of g' (Some q') = Some (Inr (spec_rules v l r)) \<and>
      (spec_rules v l r = Node v l r \<longrightarrow> g' = g \<and> q' = q)"
    if b: "parser_tree (Node v l r) \<and> repr g q (Node v l r)"
  proof -
    from b have pt: "parser_tree (Node v l r)" and rp: "repr g q (Node v l r)" by blast+
    from rewrite_rules_correct [OF rp pt] obtain g' q' where
      r: "rewrite_rules g q = Inr (g', Some q')" "repr g' q' (spec_rules v l r)"
        "spec_rules v l r = Node v l r \<longrightarrow> g' = g \<and> q' = q"
      by blast
    from tree_of_repr [OF r(2)] r(1,3) show ?thesis by blast
  qed
  from a c show ?thesis by blast
qed

theorem rewrite_pass_refines_spec_witness:
  "parse_expression (tokenize ''(x+0)*(2+3)'') =
     Inr (Node ''*'' (Node ''+'' (Leaf ''x'') (Leaf ''0'')) (Node ''+'' (Leaf ''2'') (Leaf ''3''))) \<and>
   rewrite_spec (Node ''*'' (Node ''+'' (Leaf ''x'') (Leaf ''0''))
      (Node ''+'' (Leaf ''2'') (Leaf ''3''))) = Node ''*'' (Leaf ''x'') (Leaf ''5'') \<and>
   (\<exists>h' p'. rewrite_h
       [\<lparr>val = ''x'', left = None, right = None\<rparr>,
        \<lparr>val = ''0'', left = None, right = None\<rparr>,
        \<lparr>val = ''+'', left = Some 0, right = Some 1\<rparr>,
        \<lparr>val = ''2'', left = None, right = None\<rparr>,
        \<lparr>val = ''3'', left = None, right = None\<rparr>,
        \<lparr>val = ''+'', left = Some 3, right = Some 4\<rparr>,
        \<lparr>val = ''*'', left = Some 2, right = Some 5\<rparr>] (Some 6) = Some (Inr (h', Some p')) \<and>
      tree_of h' (Some p') = Some (Inr (Node ''*'' (Leaf ''x'') (Leaf ''5'')))) \<and>
   spec_rules ''*'' (Leaf ''a'') (Node ''+'' (Leaf ''b'') (Leaf ''c'')) =
     Node ''+'' (Node ''*'' (Leaf ''a'') (Leaf ''b'')) (Node ''*'' (Leaf ''a'') (Leaf ''c'')) \<and>
   (\<exists>g' q'. rewrite_rules
       [\<lparr>val = ''a'', left = None, right = None\<rparr>,
        \<lparr>val = ''b'', left = None, right = None\<rparr>,
        \<lparr>val = ''c'', left = None, right = None\<rparr>,
        \<lparr>val = ''+'', left = Some 1, right = Some 2\<rparr>,
        \<lparr>val = ''*'', left = Some 0, right = Some 3\<rparr>] 4 = Inr (g', Some q') \<and>
      tree_of g' (Some q') = Some (Inr (Node ''+'' (Node ''*'' (Leaf ''a'') (Leaf ''b''))
         (Node ''*'' (Leaf ''a'') (Leaf ''c'')))))"
proof -
  let ?t = "Node ''*'' (Node ''+'' (Leaf ''x'') (Leaf ''0'')) (Node ''+'' (Leaf ''2'') (Leaf ''3''))"
  let ?h = "[\<lparr>val = ''x'', left = None, right = None\<rparr>,
        \<lparr>val = ''0'', left = None, right = None\<rparr>,
        \<lparr>val = ''+'', left = Some 0, right = Some 1\<rparr>,
        \<lparr>val = ''2'', left = None, right = None\<rparr>,
        \<lparr>val = ''3'', left = None, right = None\<rparr>,
        \<lparr>val = ''+'', left = Some 3, right = Some 4\<rparr>,
        \<lparr>val = ''*'', left = Some 2, right = Some (5::nat)\<rparr>]"
  let ?g = "[\<lparr>val = ''a'', left = None, right = None\<rparr>,
        \<lparr>val = ''b'', left = None, right = None\<rparr>,
        \<lparr>val = ''c'', left = None, right = None\<rparr>,
        \<lparr>val = ''+'', left = Some 1, right = Some 2\<rparr>,
        \<lparr>val = ''*'', left = Some 0, right = Some (3::nat)\<rparr>]"
  have h1: "parse_expression (tokenize ''(x+0)*(2+3)'') = Inr ?t"
    by code_simp
  have h2: "repr ?h 6 ?t"
    by (simp add: repr.simps)
  have h3: "tree_shaped ?h 6 ?t"
    by (simp add: addrs.simps)
  have h4: "rewrite_spec ?t = Node ''*'' (Leaf ''x'') (Leaf ''5'')"
    by code_simp
  have h5: "parser_tree (Node ''*'' (Leaf ''a'') (Node ''+'' (Leaf ''b'') (Leaf ''c'')))"
    by (simp add: isalpha_def isdigit_def is_alpha_char_def is_digit_char_def)
  have h6: "repr ?g 4 (Node ''*'' (Leaf ''a'') (Node ''+'' (Leaf ''b'') (Leaf ''c'')))"
    by (simp add: repr.simps)
  have h7: "spec_rules ''*'' (Leaf ''a'') (Node ''+'' (Leaf ''b'') (Leaf ''c'')) =
     Node ''+'' (Node ''*'' (Leaf ''a'') (Leaf ''b'')) (Node ''*'' (Leaf ''a'') (Leaf ''c''))"
    by code_simp
  have k1: "\<exists>h' p'. rewrite_h ?h (Some 6) = Some (Inr (h', Some p')) \<and>
      tree_of h' (Some p') = Some (Inr (Node ''*'' (Leaf ''x'') (Leaf ''5'')))"
    using rewrite_pass_refines_spec [where ts = "tokenize ''(x+0)*(2+3)''" and t = ?t
        and h = ?h and p = 6] h1 h2 h3 h4
    by simp
  have k2: "\<exists>g' q'. rewrite_rules ?g 4 = Inr (g', Some q') \<and>
      tree_of g' (Some q') = Some (Inr (Node ''+'' (Node ''*'' (Leaf ''a'') (Leaf ''b''))
         (Node ''*'' (Leaf ''a'') (Leaf ''c''))))"
    using rewrite_pass_refines_spec [where v = "''*''" and l = "Leaf ''a''"
        and r = "Node ''+'' (Leaf ''b'') (Leaf ''c'')" and g = ?g and q = 4] h5 h6 h7
    by auto
  from h1 h4 h7 k1 k2 show ?thesis by blast
qed

section \<open>Properties of the saturation driver\<close>

subsection \<open>Deep copy\<close>

lemma memo_ok_append: "memo_ok h0 h memo \<Longrightarrow> memo_ok h0 (h @ xs) memo"
  unfolding memo_ok_def using repr_append by metis

lemma memo_ok_update:
  assumes "memo_ok h0 h memo" "repr h0 p t" "repr h y t" "addrs h y t \<subseteq> {length h0..}"
  shows "memo_ok h0 h (memo(p := Some y))"
  using assms unfolding memo_ok_def by auto

lemma deepcopy_None [simp]: "deepcopy h memo None = Some (h, memo, None)"
  by (subst deepcopy.simps) simp

lemma deepcopy_correct:
  assumes "repr h0 p t" "memo_ok h0 (h0 @ zs) memo"
  shows "\<exists>ys memo' y. deepcopy (h0 @ zs) memo (Some p) = Some (h0 @ zs @ ys, memo', Some y) \<and>
     repr (h0 @ zs @ ys) y t \<and> addrs (h0 @ zs @ ys) y t \<subseteq> {length h0..} \<and>
     memo_ok h0 (h0 @ zs @ ys) memo'"
  using assms
proof (induction t arbitrary: p zs memo)
  case (Leaf v)
  let ?h = "h0 @ zs"
  from Leaf.prems(1) have a: "p < length h0" "val (h0 ! p) = v" "left (h0 ! p) = None"
    "right (h0 ! p) = None" by simp_all
  then have at: "?h ! p = h0 ! p" by (simp add: nth_append)
  show ?case
  proof (cases "memo p")
    case (Some y)
    with Leaf.prems(2) obtain s where s: "repr h0 p s" "repr ?h y s" "addrs ?h y s \<subseteq> {length h0..}"
      unfolding memo_ok_def by blast
    from repr_functional [OF s(1) Leaf.prems(1)] have "s = Leaf v" .
    with s Some Leaf.prems(2) show ?thesis
      by (intro exI [of _ "[]"] exI [of _ memo] exI [of _ y]) (subst deepcopy.simps, simp)
  next
    case None
    let ?n = "\<lparr>val = v, left = None, right = None\<rparr>"
    have res: "deepcopy ?h memo (Some p) = Some (?h @ [?n], memo(p := Some (length ?h)), Some (length ?h))"
      using None a at by (subst deepcopy.simps) (simp add: new_node_def)
    have r: "repr (?h @ [?n]) (length ?h) (Leaf v)" by simp
    have m: "memo_ok h0 (?h @ [?n]) (memo(p := Some (length ?h)))"
      by (rule memo_ok_update [OF memo_ok_append [OF Leaf.prems(2)] Leaf.prems(1) r]) simp
    from res r m have "deepcopy ?h memo (Some p) =
        Some (h0 @ zs @ [?n], memo(p := Some (length ?h)), Some (length ?h)) \<and>
      repr (h0 @ zs @ [?n]) (length ?h) (Leaf v) \<and>
      addrs (h0 @ zs @ [?n]) (length ?h) (Leaf v) \<subseteq> {length h0..} \<and>
      memo_ok h0 (h0 @ zs @ [?n]) (memo(p := Some (length ?h)))"
      by simp
    then show ?thesis by blast
  qed
next
  case (Node v l r)
  let ?h = "h0 @ zs"
  from Node.prems(1) obtain pl pr where a: "p < length h0" "val (h0 ! p) = v"
    "left (h0 ! p) = Some pl" "right (h0 ! p) = Some pr" "repr h0 pl l" "repr h0 pr r"
    by (rule repr_NodeE)
  have at: "(h0 @ us) ! p = h0 ! p" for us using a(1) by (simp add: nth_append)
  show ?case
  proof (cases "memo p")
    case (Some y)
    with Node.prems(2) obtain s where s: "repr h0 p s" "repr ?h y s" "addrs ?h y s \<subseteq> {length h0..}"
      unfolding memo_ok_def by blast
    from repr_functional [OF s(1) Node.prems(1)] have "s = Node v l r" .
    with s Some Node.prems(2) show ?thesis
      by (intro exI [of _ "[]"] exI [of _ memo] exI [of _ y]) (subst deepcopy.simps, simp)
  next
    case None
    from Node.IH(1) [OF a(5) Node.prems(2)] obtain ys1 memo1 yl where
      l: "deepcopy ?h memo (Some pl) = Some (h0 @ zs @ ys1, memo1, Some yl)"
        "repr (h0 @ zs @ ys1) yl l" "addrs (h0 @ zs @ ys1) yl l \<subseteq> {length h0..}"
        "memo_ok h0 (h0 @ zs @ ys1) memo1" by blast
    from Node.IH(2) [OF a(6), of "zs @ ys1" memo1] l(4) obtain ys2 memo2 yr where
      r: "deepcopy (h0 @ zs @ ys1) memo1 (Some pr) = Some (h0 @ zs @ ys1 @ ys2, memo2, Some yr)"
        "repr (h0 @ zs @ ys1 @ ys2) yr r" "addrs (h0 @ zs @ ys1 @ ys2) yr r \<subseteq> {length h0..}"
        "memo_ok h0 (h0 @ zs @ ys1 @ ys2) memo2" by auto
    let ?h2 = "h0 @ zs @ ys1 @ ys2"
    let ?n = "\<lparr>val = v, left = Some yl, right = Some yr\<rparr>"
    let ?y = "length ?h2"
    have res: "deepcopy ?h memo (Some p) = Some (?h2 @ [?n], memo2(p := Some ?y), Some ?y)"
      using None a(2,3,4) l(1) r(1) at [of zs] at [of "zs @ ys1"] at [of "zs @ ys1 @ ys2"]
      by (subst deepcopy.simps) (simp add: new_node_def)
    from repr_append [OF l(2), of ys2] have l2: "repr ?h2 yl l" "addrs ?h2 yl l = addrs (h0 @ zs @ ys1) yl l"
      by simp_all
    note l3 = repr_append [OF l2(1), of "[?n]"] and r3 = repr_append [OF r(2), of "[?n]"]
    have aty: "(?h2 @ [?n]) ! ?y = ?n" by (simp add: nth_append)
    have rp: "repr (?h2 @ [?n]) ?y (Node v l r)"
      by (rule repr_NodeI [of _ _ _ yl yr]) (use l3 r3 aty in simp_all)
    have ad: "addrs (?h2 @ [?n]) ?y (Node v l r) \<subseteq> {length h0..}"
      using l3 r3 l2(2) l(3) r(3) aty by (simp add: addrs_Node [of _ _ yl yr])
    have m: "memo_ok h0 (?h2 @ [?n]) (memo2(p := Some ?y))"
      by (rule memo_ok_update [OF memo_ok_append [OF r(4)] Node.prems(1) rp ad])
    from res rp ad m have "deepcopy ?h memo (Some p) =
        Some (h0 @ zs @ (ys1 @ ys2 @ [?n]), memo2(p := Some ?y), Some ?y) \<and>
      repr (h0 @ zs @ (ys1 @ ys2 @ [?n])) ?y (Node v l r) \<and>
      addrs (h0 @ zs @ (ys1 @ ys2 @ [?n])) ?y (Node v l r) \<subseteq> {length h0..} \<and>
      memo_ok h0 (h0 @ zs @ (ys1 @ ys2 @ [?n])) (memo2(p := Some ?y))"
      by simp
    then show ?thesis by blast
  qed
qed

lemma deepcopy_fresh:
  assumes "repr h p t"
  shows "\<exists>ys memo' y. deepcopy h Map.empty (Some p) = Some (h @ ys, memo', Some y) \<and>
     repr (h @ ys) y t \<and> addrs (h @ ys) y t \<subseteq> {length h..<length (h @ ys)}"
proof -
  have "memo_ok h (h @ []) Map.empty" by (simp add: memo_ok_def)
  from deepcopy_correct [OF assms this] obtain ys memo' y where
    d: "deepcopy h Map.empty (Some p) = Some (h @ ys, memo', Some y)" "repr (h @ ys) y t"
      "addrs (h @ ys) y t \<subseteq> {length h..}" by auto
  from addrs_bound [OF d(2)] d(3) have "addrs (h @ ys) y t \<subseteq> {length h..<length (h @ ys)}" by auto
  with d show ?thesis by blast
qed

subsection \<open>The loop\<close>

lemma saturation_loop_stop:
  assumes "repr h pv t" "repr h c t"
  shows "saturation_loop h (Some pv) (Some c) = Some (Inr (h, Some c))"
  using ast_eq_repr [OF assms] by (subst saturation_loop.simps) simp

lemma saturation_loop_step:
  assumes "ast_eq h prev (Some c) = Some False"
    and "deepcopy h Map.empty (Some c) = Some (h1, memo, prev')"
    and "rewrite_h h1 (Some c) = Some (Inr (h2, c'))"
  shows "saturation_loop h prev (Some c) = saturation_loop h2 prev' c'"
  using assms by (subst saturation_loop.simps) simp

lemma saturation_loop_correct:
  assumes "repr h c t" "parser_tree t"
    and "prev = None \<or> (\<exists>pv tp. prev = Some pv \<and> repr h pv tp \<and> (tp = t \<longrightarrow> nf t))"
  shows "\<exists>h' c' t'. saturation_loop h prev (Some c) = Some (Inr (h', Some c')) \<and>
     repr h' c' t' \<and> nf t' \<and> reduces t t' \<and> modifies (addrs h c t \<union> {length h..}) h h'"
  using assms
proof (induction "mu t" arbitrary: h prev c t rule: less_induct)
  case less
  define X where "X = addrs h c t \<union> {length h..}"
  have stop: ?case if "prev = Some pv" "repr h pv t" "nf t" for pv
    using saturation_loop_stop [OF that(2) less.prems(1)] that less.prems(1)
    by (auto intro: red_refl modifies_refl)
  have run: ?case if ne: "ast_eq h prev (Some c) = Some False"
  proof -
    from deepcopy_fresh [OF less.prems(1)] obtain ys memo' pv' where
      d: "deepcopy h Map.empty (Some c) = Some (h @ ys, memo', Some pv')"
        "repr (h @ ys) pv' t" "addrs (h @ ys) pv' t \<subseteq> {length h..<length (h @ ys)}" by blast
    let ?h1 = "h @ ys"
    note c1 = repr_append [OF less.prems(1), of ys]
    from rewrite_h_correct [OF conjunct1 [OF c1] less.prems(2)] obtain h2 c' t' where
      rw: "rewrite_h ?h1 (Some c) = Some (Inr (h2, Some c'))" and post: "rewrite_post ?h1 c t h2 c' t'"
      by blast
    define XR where "XR = addrs ?h1 c t \<union> {length ?h1..}"
    from post have R1: "repr h2 c' t'" and mR: "modifies XR ?h1 h2"
      and R3: "addrs h2 c' t' \<subseteq> XR"
      and R5: "nf t \<longrightarrow> h2 = ?h1 \<and> c' = c" and R6: "\<not> nf t \<longrightarrow> mu t' < mu t"
      unfolding rewrite_post_def XR_def by blast+
    have red: "reduces t t'" using post conjunct1 [OF c1] by (rule rewrite_post_reduces)
    have XR_X: "XR \<subseteq> X" unfolding XR_def X_def using c1 by auto
    have "addrs ?h1 pv' t \<inter> XR = {}"
      unfolding XR_def using d(3) c1 addrs_bound [OF less.prems(1)]
      by (fastforce simp: subset_iff disjoint_iff)
    from modifies_outside [OF mR d(2) this] have pv2: "repr h2 pv' t" by simp
    have step: "saturation_loop h prev (Some c) = saturation_loop h2 (Some pv') (Some c')"
      using ne d(1) rw by (rule saturation_loop_step)
    have m1: "modifies X h h2"
      using modifies_append [of X h ys] modifies_mono [OF mR XR_X] by (rule modifies_trans)
    show ?thesis
    proof (cases "nf t")
      case True
      with R5 have e: "h2 = ?h1" "c' = c" by auto
      with R1 c1 have "t' = t" by (auto dest: repr_functional)
      with step e saturation_loop_stop [OF d(2) conjunct1 [OF c1]] R1 True m1
      show ?thesis unfolding X_def by (auto intro: red_refl)
    next
      case False
      with R6 have lt: "mu t' < mu t" by simp
      then have "t \<noteq> t'" by auto
      with pv2 have inv: "Some pv' = None \<or>
          (\<exists>pv tp. Some pv' = Some pv \<and> repr h2 pv tp \<and> (tp = t' \<longrightarrow> nf t'))" by blast
      from less.hyps [OF lt R1 reduces_parser_tree [OF red less.prems(2)] inv]
      obtain h' c'' t'' where r: "saturation_loop h2 (Some pv') (Some c') = Some (Inr (h', Some c''))"
        "repr h' c'' t''" "nf t''" "reduces t' t''"
        "modifies (addrs h2 c' t' \<union> {length h2..}) h2 h'" by blast
      have "length h \<le> length h2" using m1 by (simp add: modifies_def)
      then have "addrs h2 c' t' \<union> {length h2..} \<subseteq> X"
        using R3 XR_X unfolding X_def by auto
      from modifies_trans [OF m1 modifies_mono [OF r(5) this]] step r red
      show ?thesis unfolding X_def by (auto intro: red_trans)
    qed
  qed
  from less.prems(3) show ?case
  proof
    assume "prev = None"
    then have "ast_eq h prev (Some c) = Some False" by simp
    then show ?case by (rule run)
  next
    assume "\<exists>pv tp. prev = Some pv \<and> repr h pv tp \<and> (tp = t \<longrightarrow> nf t)"
    then obtain pv tp where p: "prev = Some pv" "repr h pv tp" "tp = t \<longrightarrow> nf t" by blast
    show ?case
    proof (cases "tp = t")
      case True
      with p show ?thesis by (intro stop [of pv]) simp_all
    next
      case False
      with ast_eq_repr [OF p(2) less.prems(1)] p(1) have "ast_eq h prev (Some c) = Some False"
        by simp
      then show ?thesis by (rule run)
    qed
  qed
qed

text \<open>
  On the objects of a parser tree \<^verbatim>\<open>saturation\<close> returns an object whose tree is a normal
  form of the argument's tree, and leaves every object of the caller's store as it was.
\<close>

theorem saturation_correct:
  assumes "repr h p t" "parser_tree t"
  shows "\<exists>h' c t'. saturation h (Some p) = Some (Inr (h', Some c)) \<and> repr h' c t' \<and>
     nf t' \<and> reduces t t' \<and> length h \<le> length h' \<and> (\<forall>q<length h. h' ! q = h ! q)"
proof -
  from deepcopy_fresh [OF assms(1)] obtain ys memo' c0 where
    d: "deepcopy h Map.empty (Some p) = Some (h @ ys, memo', Some c0)"
      "repr (h @ ys) c0 t" "addrs (h @ ys) c0 t \<subseteq> {length h..<length (h @ ys)}" by blast
  from saturation_loop_correct [OF d(2) assms(2), of None] obtain h' c t' where
    l: "saturation_loop (h @ ys) None (Some c0) = Some (Inr (h', Some c))"
      "repr h' c t'" "nf t'" "reduces t t'"
      "modifies (addrs (h @ ys) c0 t \<union> {length (h @ ys)..}) (h @ ys) h'" by blast
  have "saturation h (Some p) = Some (Inr (h', Some c))"
    unfolding saturation_def using d(1) l(1) by simp
  moreover have "length h \<le> length h'" using l(5) by (simp add: modifies_def)
  moreover have "h' ! q = h ! q" if "q < length h" for q
  proof -
    from that d(3) have "q \<notin> addrs (h @ ys) c0 t \<union> {length (h @ ys)..}" by auto
    with l(5) that have "h' ! q = (h @ ys) ! q" unfolding modifies_def by simp
    with that show ?thesis by (simp add: nth_append)
  qed
  ultimately show ?thesis using l(2,3,4) by blast
qed

lemma saturate_correct:
  assumes "parser_tree t"
  shows "\<exists>t'. saturate t = Some (Inr t') \<and> nf t' \<and> reduces t t'"
proof -
  obtain h p where b: "build [] t = (h, Some p)" "repr h p t" by (rule build_repr)
  from saturation_correct [OF b(2) assms] obtain h' c t' where
    s: "saturation h (Some p) = Some (Inr (h', Some c))" "repr h' c t'" "nf t'" "reduces t t'"
    by blast
  from tree_of_repr [OF s(2)] b(1) s(1) have "saturate t = Some (Inr t')"
    by (simp add: saturate_def)
  with s(3,4) show ?thesis by blast
qed

subsection \<open>What the driver leaves untouched\<close>

lemma store_of_simps [simp]: "store_of (Inl (e, h)) = h" "store_of (Inr (h, y)) = h"
  by (simp_all add: store_of_def)

lemma keeps_refl: "keeps N h h"
  by (simp add: keeps_def)

lemma keeps_trans: "keeps N h h' \<Longrightarrow> keeps N h' h'' \<Longrightarrow> keeps N h h''"
  by (auto simp: keeps_def)

lemma keeps_append: "keeps N h (h @ xs)"
  by (simp add: keeps_def nth_append)

lemma upper_None [simp]: "upper N h None"
  by (simp add: upper_def)

lemma upper_Some [simp]: "upper N h (Some p) \<longleftrightarrow> N \<le> p \<and> p < length h"
  by (simp add: upper_def)

lemma upper_mono: "upper N h x \<Longrightarrow> length h \<le> length h' \<Longrightarrow> upper N h' x"
  by (cases x) auto

lemma upper_closed_snoc:
  assumes "upper_closed N h" "upper N (h @ [n]) (left n)" "upper N (h @ [n]) (right n)"
  shows "upper_closed N (h @ [n])"
  unfolding upper_closed_def
proof (intro allI impI)
  fix q assume q: "N \<le> q \<and> q < length (h @ [n])"
  show "upper N (h @ [n]) (left ((h @ [n]) ! q)) \<and> upper N (h @ [n]) (right ((h @ [n]) ! q))"
  proof (cases "q < length h")
    case True
    with assms(1) q have "upper N h (left (h ! q)) \<and> upper N h (right (h ! q))"
      unfolding upper_closed_def by simp
    with True show ?thesis by (auto simp: nth_append intro: upper_mono)
  next
    case False
    with q have "q = length h" by simp
    with assms(2,3) show ?thesis by simp
  qed
qed

lemma upper_closed_update:
  assumes "upper_closed N h" "N \<le> p" "p < length h" "upper N h (left n)" "upper N h (right n)"
  shows "upper_closed N (h[p := n])"
  unfolding upper_closed_def
proof (intro allI impI)
  fix q assume q: "N \<le> q \<and> q < length (h[p := n])"
  show "upper N (h[p := n]) (left (h[p := n] ! q)) \<and> upper N (h[p := n]) (right (h[p := n] ! q))"
  proof (cases "q = p")
    case True
    with assms show ?thesis by (auto intro: upper_mono)
  next
    case False
    with assms(1) q have "upper N h (left (h ! q)) \<and> upper N h (right (h ! q))"
      unfolding upper_closed_def by simp
    with False show ?thesis by (auto intro: upper_mono)
  qed
qed

lemma upper_closedD:
  "upper_closed N h \<Longrightarrow> N \<le> q \<Longrightarrow> q < length h \<Longrightarrow>
     upper N h (left (h ! q)) \<and> upper N h (right (h ! q))"
  by (simp add: upper_closed_def)

lemma new_node_frame:
  assumes "upper_closed N h" "upper N h l" "upper N h r" "N \<le> length h"
    and "new_node h v l r = (h', y)"
  shows "upper_closed N h' \<and> upper N h' y \<and> keeps N h h' \<and> length h < length h'"
proof -
  from assms(5) have h': "h' = h @ [\<lparr>val = v, left = l, right = r\<rparr>]" and y: "y = Some (length h)"
    by (simp_all add: new_node_def)
  have "upper_closed N h'"
    unfolding h' by (rule upper_closed_snoc [OF assms(1)]) (use assms(2,3) in \<open>auto intro: upper_mono\<close>)
  then show ?thesis
    using assms(4) unfolding h' y by (simp add: keeps_append)
qed

lemma rewrite_rules_cases:
  assumes "rewrite_rules h p = Inr (h', y)"
  obtains l r where "left (h ! p) = Some l" "right (h ! p) = Some r"
    and "(h' = h \<and> (y = Some l \<or> y = Some r \<or> y = Some p)) \<or>
      (\<exists>w. new_node h w None None = (h', y)) \<or>
      (\<exists>h1 ab h2 ac. new_node h ''*'' (Some l) (left (h ! r)) = (h1, ab) \<and>
         new_node h1 ''*'' (Some l) (right (h ! r)) = (h2, ac) \<and>
         new_node h2 ''+'' ab ac = (h', y))"
proof -
  from assms obtain l r where lr: "left (h ! p) = Some l" "right (h ! p) = Some r"
    unfolding rewrite_rules_def by (auto simp: Let_def split: option.splits)
  have "(h' = h \<and> (y = Some l \<or> y = Some r \<or> y = Some p)) \<or>
      (\<exists>w. new_node h w None None = (h', y)) \<or>
      (\<exists>h1 ab h2 ac. new_node h ''*'' (Some l) (left (h ! r)) = (h1, ab) \<and>
         new_node h1 ''*'' (Some l) (right (h ! r)) = (h2, ac) \<and>
         new_node h2 ''+'' ab ac = (h', y))"
    using assms unfolding rewrite_rules_def Let_def lr option.case
    by (simp split: if_splits prod.splits) metis+
  with lr that show ?thesis by blast
qed

lemma rewrite_rules_error: "rewrite_rules h p = Inl (e, h') \<Longrightarrow> h' = h"
  unfolding rewrite_rules_def
  by (auto simp: Let_def new_node_def split: option.splits if_splits prod.splits)

lemma rewrite_rules_frame:
  assumes uc: "upper_closed N h" and p: "N \<le> p" "p < length h"
    and res: "rewrite_rules h p = Inr (h', y)"
  shows "upper_closed N h' \<and> upper N h' y \<and> keeps N h h'"
proof -
  from res obtain l r where lr: "left (h ! p) = Some l" "right (h ! p) = Some r"
    and cases: "(h' = h \<and> (y = Some l \<or> y = Some r \<or> y = Some p)) \<or>
      (\<exists>w. new_node h w None None = (h', y)) \<or>
      (\<exists>h1 ab h2 ac. new_node h ''*'' (Some l) (left (h ! r)) = (h1, ab) \<and>
         new_node h1 ''*'' (Some l) (right (h ! r)) = (h2, ac) \<and>
         new_node h2 ''+'' ab ac = (h', y))"
    by (rule rewrite_rules_cases)
  from upper_closedD [OF uc p] lr have ul: "upper N h (Some l)" and ur: "upper N h (Some r)"
    by simp_all
  then have l: "N \<le> l" "l < length h" and r: "N \<le> r" "r < length h" by simp_all
  from upper_closedD [OF uc r] have urr: "upper N h (left (h ! r))" "upper N h (right (h ! r))"
    by simp_all
  have N: "N \<le> length h" using p by simp
  from cases show ?thesis
  proof (elim disjE exE conjE)
    assume "h' = h" "y = Some l"
    with uc ul show ?thesis by (simp add: keeps_refl)
  next
    assume "h' = h" "y = Some r"
    with uc ur show ?thesis by (simp add: keeps_refl)
  next
    assume "h' = h" "y = Some p"
    with uc p show ?thesis by (simp add: keeps_refl)
  next
    fix w assume "new_node h w None None = (h', y)"
    from new_node_frame [OF uc _ _ N this] show ?thesis by simp
  next
    fix h1 ab h2 ac
    assume n1: "new_node h ''*'' (Some l) (left (h ! r)) = (h1, ab)"
      and n2: "new_node h1 ''*'' (Some l) (right (h ! r)) = (h2, ac)"
      and n3: "new_node h2 ''+'' ab ac = (h', y)"
    from new_node_frame [OF uc ul urr(1) N n1]
    have f1: "upper_closed N h1" "upper N h1 ab" "keeps N h h1" "length h < length h1" by simp_all
    have N1: "N \<le> length h1" using N f1(4) by simp
    have len1: "length h \<le> length h1" using f1(4) by simp
    from new_node_frame [OF f1(1) upper_mono [OF ul len1] upper_mono [OF urr(2) len1] N1 n2]
    have f2: "upper_closed N h2" "upper N h2 ac" "keeps N h1 h2" "length h1 < length h2" by simp_all
    have N2: "N \<le> length h2" using N1 f2(4) by simp
    have len2: "length h1 \<le> length h2" using f2(4) by simp
    from new_node_frame [OF f2(1) upper_mono [OF f1(2) len2] f2(2) N2 n3]
    have f3: "upper_closed N h'" "upper N h' y" "keeps N h2 h'" by simp_all
    from f3 keeps_trans [OF keeps_trans [OF f1(3) f2(3)] f3(3)] show ?thesis by simp
  qed
qed

lemma rewrite_h_returns_object:
  assumes "rewrite_h h x = Some (Inr (h', y))"
  shows "y \<noteq> None"
proof -
  have "\<forall>h' y. res = Inr (h', y) \<longrightarrow> y \<noteq> None" if "rewrite_h h x = Some res" for res
  proof (rule rewrite_h.raw_induct [where P = "\<lambda>h x res. \<forall>h' y. res = Inr (h', y) \<longrightarrow> y \<noteq> None",
        OF _ that], goal_cases)
    case (1 f h node res)
    show ?case
    proof (intro allI impI)
      fix h' y
      assume res: "res = Inr (h', y)"
      show "y \<noteq> None"
      proof (cases node)
        case None
        with 1(2) res show ?thesis by simp
      next
        case (Some p)
        show ?thesis
        proof (cases "left (h ! p) = None")
          case True
          with 1(2) Some res show ?thesis by auto
        next
          case False
          with 1(2) Some res obtain g where "rewrite_rules g p = Inr (h', y)"
            by (auto simp: Let_def split: bind_splits sum.splits prod.splits)
          then show ?thesis
            by (rule rewrite_rules_cases) (auto simp: new_node_def)
        qed
      qed
    qed
  qed
  with assms show ?thesis by blast
qed

lemma rewrite_h_frame:
  assumes "rewrite_h h x = Some res"
  shows "upper_closed N h \<longrightarrow> upper N h x \<longrightarrow>
     keeps N h (store_of res) \<and>
     (\<forall>h' y. res = Inr (h', y) \<longrightarrow> upper_closed N h' \<and> upper N h' y)"
proof (rule rewrite_h.raw_induct [where P = "\<lambda>h x res.
    upper_closed N h \<longrightarrow> upper N h x \<longrightarrow>
      keeps N h (store_of res) \<and>
      (\<forall>h' y. res = Inr (h', y) \<longrightarrow> upper_closed N h' \<and> upper N h' y)", OF _ assms], goal_cases)
  case (1 f h node res)
  show ?case
  proof (intro impI)
    assume uc: "upper_closed N h" and un: "upper N h node"
    show "keeps N h (store_of res) \<and>
      (\<forall>h' y. res = Inr (h', y) \<longrightarrow> upper_closed N h' \<and> upper N h' y)"
    proof (cases node)
      case None
      with 1(2) show ?thesis by (auto simp: keeps_refl)
    next
      case (Some p)
      with un have p: "N \<le> p" "p < length h" by simp_all
      show ?thesis
      proof (cases "left (h ! p) = None")
        case True
        with 1(2) Some uc un show ?thesis by (auto simp: keeps_refl)
      next
        case False
        with 1(2) Some obtain r1 where
          s1: "f h (left (h ! p)) = Some r1"
          by (auto simp: Let_def split: bind_splits)
        from upper_closedD [OF uc p] have ul: "upper N h (left (h ! p))" by simp
        from 1(1) [OF s1] uc ul
        have f1: "keeps N h (store_of r1)"
          "\<And>h1 l'. r1 = Inr (h1, l') \<Longrightarrow> upper_closed N h1 \<and> upper N h1 l'"
          by blast+
        show ?thesis
        proof (cases r1)
          case (Inl eh)
          with 1(2) Some False s1 have "res = r1" by simp
          with f1(1) Inl show ?thesis by simp
        next
          case (Inr a)
          then obtain h1 l' where r1: "r1 = Inr (h1, l')" by (cases a) simp
          from f1 r1 have k1: "keeps N h h1" and uc1: "upper_closed N h1"
            and ul': "upper N h1 l'" by simp_all
          define h1' where "h1' = h1[p := (h1 ! p)\<lparr>left := l'\<rparr>]"
          from 1(2) Some False s1 r1 obtain r2 where
            s2: "f h1' (right (h1' ! p)) = Some r2"
            unfolding h1'_def by (auto simp: Let_def split: bind_splits)
          have p1: "p < length h1" using p k1 by (simp add: keeps_def)
          from upper_closedD [OF uc1 p(1) p1]
          have fr: "upper N h1 (right (h1 ! p))" by simp
          have uc1': "upper_closed N h1'"
            unfolding h1'_def
            by (rule upper_closed_update [OF uc1 p(1) p1]) (use ul' fr in simp_all)
          have k1': "keeps N h1 h1'" unfolding h1'_def using p(1) by (simp add: keeps_def)
          have ur: "upper N h1' (right (h1' ! p))"
            using fr p1 unfolding h1'_def by (auto intro: upper_mono)
          from 1(1) [OF s2] uc1' ur
          have f2: "keeps N h1' (store_of r2)"
            "\<And>h2 r'. r2 = Inr (h2, r') \<Longrightarrow> upper_closed N h2 \<and> upper N h2 r'"
            by blast+
          note k01 = keeps_trans [OF k1 k1']
          show ?thesis
          proof (cases r2)
            case (Inl eh)
            with 1(2) Some False s1 r1 s2 have "res = r2"
              unfolding h1'_def by (simp add: Let_def)
            with keeps_trans [OF k01 f2(1)] Inl show ?thesis by simp
          next
            case (Inr b)
            then obtain h2 r' where r2: "r2 = Inr (h2, r')" by (cases b) simp
            from f2 r2 have k2: "keeps N h1' h2" and uc2: "upper_closed N h2"
              and ur': "upper N h2 r'" by simp_all
            define h2' where "h2' = h2[p := (h2 ! p)\<lparr>right := r'\<rparr>]"
            from 1(2) Some False s1 r1 s2 r2 have s3: "res = rewrite_rules h2' p"
              unfolding h1'_def h2'_def by (simp add: Let_def)
            have p2: "p < length h2" using p1 k2 unfolding h1'_def by (simp add: keeps_def)
            from upper_closedD [OF uc2 p(1) p2]
            have fl: "upper N h2 (left (h2 ! p))" by simp
            have uc2': "upper_closed N h2'"
              unfolding h2'_def
              by (rule upper_closed_update [OF uc2 p(1) p2]) (use ur' fl in simp_all)
            have k2': "keeps N h2 h2'" unfolding h2'_def using p(1) by (simp add: keeps_def)
            have p2': "p < length h2'" using p2 unfolding h2'_def by simp
            note k02 = keeps_trans [OF keeps_trans [OF k01 k2] k2']
            show ?thesis
            proof (cases res)
              case (Inl eh)
              then obtain e h' where res: "res = Inl (e, h')" by (cases eh) simp
              from rewrite_rules_error [OF s3 [symmetric, unfolded res]] have "h' = h2'" .
              with res k02 show ?thesis by simp
            next
              case (Inr c)
              then obtain h' y where res: "res = Inr (h', y)" by (cases c) simp
              from rewrite_rules_frame [OF uc2' p(1) p2' s3 [symmetric, unfolded res]]
              have f3: "upper_closed N h'" "upper N h' y" "keeps N h2' h'" by simp_all
              from f3 keeps_trans [OF k02 f3(3)] res show ?thesis by simp
            qed
          qed
        qed
      qed
    qed
  qed
qed

lemma deepcopy_frame:
  assumes "deepcopy h memo x = Some res"
  shows "\<forall>h' memo' y. res = (h', memo', y) \<longrightarrow> upper_closed N h \<longrightarrow> memo_upper N h memo \<longrightarrow>
     N \<le> length h \<longrightarrow>
     upper_closed N h' \<and> memo_upper N h' memo' \<and> upper N h' y \<and> keeps N h h'"
proof -
  have "(case ((h, memo), x) of (a, x) \<Rightarrow> (case a of (h, memo) \<Rightarrow> \<lambda>x res.
      \<forall>h' memo' y. res = (h', memo', y) \<longrightarrow> upper_closed N h \<longrightarrow> memo_upper N h memo \<longrightarrow>
        N \<le> length h \<longrightarrow>
        upper_closed N h' \<and> memo_upper N h' memo' \<and> upper N h' y \<and> keeps N h h') x) res"
  proof (rule deepcopy.raw_induct [where xa = "((h, memo), x)" and y = res], goal_cases)
    case (1 f h memo x res)
    show ?case
    proof (intro allI impI)
      fix h' memo' y
      assume res: "res = (h', memo', y)" and uc: "upper_closed N h"
        and mu: "memo_upper N h memo" and N: "N \<le> length h"
      show "upper_closed N h' \<and> memo_upper N h' memo' \<and> upper N h' y \<and> keeps N h h'"
      proof (cases x)
        case None
        with 1(2) res uc mu show ?thesis by (simp add: keeps_refl)
      next
        case (Some p)
        show ?thesis
        proof (cases "memo p")
          case s: (Some v)
          with 1(2) Some res have "h' = h" "memo' = memo" "y = Some v" by simp_all
          with uc mu s show ?thesis
            unfolding memo_upper_def by (metis keeps_refl)
        next
          case None
          with 1(2) Some res obtain h1 memo1 l' h2 memo2 r' where
            s1: "f h memo (left (h ! p)) = Some (h1, memo1, l')"
            and s2: "f h1 memo1 (right (h1 ! p)) = Some (h2, memo2, r')"
            and s3: "new_node h2 (val (h2 ! p)) l' r' = (h', y)" and m: "memo' = memo2(p := y)"
            by (auto split: bind_splits prod.splits)
          from 1(1) [OF s1] uc mu N
          have f1: "upper_closed N h1" "memo_upper N h1 memo1" "upper N h1 l'" "keeps N h h1"
            by blast+
          have N1: "N \<le> length h1" using N f1(4) by (simp add: keeps_def)
          from 1(1) [OF s2] f1 N1
          have f2: "upper_closed N h2" "memo_upper N h2 memo2" "upper N h2 r'" "keeps N h1 h2"
            by blast+
          have N2: "N \<le> length h2" using N1 f2(4) by (simp add: keeps_def)
          have len: "length h1 \<le> length h2" using f2(4) by (simp add: keeps_def)
          from new_node_frame [OF f2(1) upper_mono [OF f1(3) len] f2(3) N2 s3]
          have f3: "upper_closed N h'" "upper N h' y" "keeps N h2 h'" "length h2 < length h'"
            by simp_all
          have "memo_upper N h' memo'"
            unfolding memo_upper_def m using f2(2) f3(2,4)
            by (auto simp: memo_upper_def intro: upper_mono)
          with f3 keeps_trans [OF keeps_trans [OF f1(4) f2(4)] f3(3)] show ?thesis by simp
        qed
      qed
    qed
  qed (use assms in simp)
  then show ?thesis by simp
qed

lemma saturation_loop_frame:
  assumes "saturation_loop h prev current = Some res"
  shows "upper_closed N h \<longrightarrow> upper N h current \<longrightarrow> N \<le> length h \<longrightarrow>
     keeps N h (store_of res)"
proof (rule saturation_loop.raw_induct [where P = "\<lambda>h prev current res.
    upper_closed N h \<longrightarrow> upper N h current \<longrightarrow> N \<le> length h \<longrightarrow>
      keeps N h (store_of res)", OF _ assms], goal_cases)
  case (1 f h prev current res)
  show ?case
  proof (intro impI)
    assume uc: "upper_closed N h" and un: "upper N h current" and N: "N \<le> length h"
    from 1(2) obtain same where same: "ast_eq h prev current = Some same"
      by (auto split: bind_splits)
    show "keeps N h (store_of res)"
    proof (cases same)
      case True
      with 1(2) same show ?thesis by (auto simp: keeps_refl)
    next
      case False
      with 1(2) same obtain h1 memo prev' r where
        d: "deepcopy h Map.empty current = Some (h1, memo, prev')"
        and r: "rewrite_h h1 current = Some r"
        by (auto split: bind_splits prod.splits)
      have "memo_upper N h Map.empty" by (simp add: memo_upper_def)
      with deepcopy_frame [OF d, of N] uc N
      have f1: "upper_closed N h1" "keeps N h h1" by blast+
      have len1: "length h \<le> length h1" using f1(2) by (simp add: keeps_def)
      from rewrite_h_frame [OF r, of N] f1(1) upper_mono [OF un len1]
      have f2: "keeps N h1 (store_of r)"
        "\<And>h2 c'. r = Inr (h2, c') \<Longrightarrow> upper_closed N h2 \<and> upper N h2 c'"
        by blast+
      show ?thesis
      proof (cases r)
        case (Inl eh)
        with 1(2) same False d r have "res = r" by simp
        with keeps_trans [OF f1(2) f2(1)] show ?thesis by simp
      next
        case (Inr a)
        then obtain h2 current' where r2: "r = Inr (h2, current')" by (cases a) simp
        with 1(2) same False d r have l: "f h2 prev' current' = Some res" by simp
        from f2 r2 have k2: "keeps N h1 h2" and uc2: "upper_closed N h2"
          and un2: "upper N h2 current'" by simp_all
        have N2: "N \<le> length h2" using N len1 k2 by (simp add: keeps_def)
        from 1(1) [OF l] uc2 un2 N2 have "keeps N h2 (store_of res)" by blast
        with f1(2) k2 show ?thesis by (blast intro: keeps_trans)
      qed
    qed
  qed
qed

text \<open>
  Whatever the store holds: when a call of \<^verbatim>\<open>saturation\<close> ends, by returning or by
  raising, the objects that existed before the call are unchanged.
\<close>

theorem saturation_frame:
  assumes "saturation h x = Some res"
  shows "length h \<le> length (store_of res) \<and> (\<forall>q<length h. store_of res ! q = h ! q)"
proof -
  from assms obtain h0 memo current where
    d: "deepcopy h Map.empty x = Some (h0, memo, current)"
    and l: "saturation_loop h0 None current = Some res"
    unfolding saturation_def by (auto split: bind_splits prod.splits)
  let ?N = "length h"
  have "upper_closed ?N h" by (auto simp: upper_closed_def)
  moreover have "memo_upper ?N h Map.empty" by (simp add: memo_upper_def)
  ultimately have f0: "upper_closed ?N h0" "upper ?N h0 current" "keeps ?N h h0"
    using deepcopy_frame [OF d, of ?N] by blast+
  have "?N \<le> length h0" using f0(3) by (simp add: keeps_def)
  with saturation_loop_frame [OF l, of ?N] f0 have "keeps ?N h0 (store_of res)" by blast
  with f0(3) have "keeps ?N h (store_of res)" by (rule keeps_trans)
  then show ?thesis by (simp add: keeps_def)
qed

subsection \<open>Termination, idempotence, absence of errors, frame\<close>

text \<open>
  Claim C5.  For every tree the parser produces, held in any objects of a store,
  \<^verbatim>\<open>saturation\<close> returns: the loop ends after finitely many passes, and it ends at a
  fixpoint, one more call of \<^verbatim>\<open>rewrite\<close> on the returned object returns that object and
  changes nothing in the store.
\<close>

theorem saturation_terminates:
  assumes "parse_expression ts = Inr t" "repr h p t"
  shows "\<exists>h' c. saturation h (Some p) = Some (Inr (h', Some c)) \<and>
           rewrite_h h' (Some c) = Some (Inr (h', Some c))"
proof -
  from assms(1) have pt: "parser_tree t" by (rule parse_expression_shape)
  from saturation_correct [OF assms(2) pt] obtain h' c t' where
    s: "saturation h (Some p) = Some (Inr (h', Some c))" "repr h' c t'" "nf t'" "reduces t t'"
    by blast
  from rewrite_h_fixpoint [OF s(2) reduces_parser_tree [OF s(4) pt] s(3)] s(1)
  show ?thesis by blast
qed

theorem saturation_terminates_witness:
  "parse_expression (tokenize ''a*(b+c)'') =
     Inr (Node ''*'' (Leaf ''a'') (Node ''+'' (Leaf ''b'') (Leaf ''c''))) \<and>
   build [] (Node ''*'' (Leaf ''a'') (Node ''+'' (Leaf ''b'') (Leaf ''c''))) =
     ([\<lparr>val = ''a'', left = None, right = None\<rparr>,
       \<lparr>val = ''b'', left = None, right = None\<rparr>,
       \<lparr>val = ''c'', left = None, right = None\<rparr>,
       \<lparr>val = ''+'', left = Some 1, right = Some 2\<rparr>,
       \<lparr>val = ''*'', left = Some 0, right = Some 3\<rparr>], Some 4) \<and>
   (\<exists>h' c. saturation
       [\<lparr>val = ''a'', left = None, right = None\<rparr>,
        \<lparr>val = ''b'', left = None, right = None\<rparr>,
        \<lparr>val = ''c'', left = None, right = None\<rparr>,
        \<lparr>val = ''+'', left = Some 1, right = Some 2\<rparr>,
        \<lparr>val = ''*'', left = Some 0, right = Some 3\<rparr>] (Some 4) = Some (Inr (h', Some c)) \<and>
      rewrite_h h' (Some c) = Some (Inr (h', Some c)))"
proof -
  let ?t = "Node ''*'' (Leaf ''a'') (Node ''+'' (Leaf ''b'') (Leaf ''c''))"
  let ?h = "[\<lparr>val = ''a'', left = None, right = None\<rparr>,
       \<lparr>val = ''b'', left = None, right = None\<rparr>,
       \<lparr>val = ''c'', left = None, right = None\<rparr>,
       \<lparr>val = ''+'', left = Some 1, right = Some 2\<rparr>,
       \<lparr>val = ''*'', left = Some 0, right = Some (3::nat)\<rparr>]"
  have h1: "parse_expression (tokenize ''a*(b+c)'') = Inr ?t"
    by code_simp
  have h2: "build [] ?t = (?h, Some 4)"
    by (simp add: new_node_def)
  have h3: "repr ?h 4 ?t"
    by (simp add: repr.simps)
  from saturation_terminates [OF h1 h3] h1 h2 show ?thesis by simp
qed

text \<open>
  Claim C6.  For every input that parses, \<^verbatim>\<open>saturation\<close> applied to the result of
  \<^verbatim>\<open>saturation\<close> returns an object that \<^verbatim>\<open>ASTNode.__eq__\<close> finds equal to that first
  result.
\<close>

theorem saturation_idempotent:
  assumes "parse_expression ts = Inr t" "repr h p t"
  shows "\<exists>h1 c1 h2 c2. saturation h (Some p) = Some (Inr (h1, Some c1)) \<and>
           saturation h1 (Some c1) = Some (Inr (h2, Some c2)) \<and>
           ast_eq h2 (Some c2) (Some c1) = Some True"
proof -
  from assms(1) have pt: "parser_tree t" by (rule parse_expression_shape)
  from saturation_correct [OF assms(2) pt] obtain h1 c1 t1 where
    s1: "saturation h (Some p) = Some (Inr (h1, Some c1))" "repr h1 c1 t1" "nf t1"
      "reduces t t1"
    by blast
  from s1(4) pt have pt1: "parser_tree t1" by (rule reduces_parser_tree)
  from saturation_correct [OF s1(2) pt1] obtain h2 c2 t2 where
    s2: "saturation h1 (Some c1) = Some (Inr (h2, Some c2))" "repr h2 c2 t2"
      "reduces t1 t2" "length h1 \<le> length h2" "\<forall>q<length h1. h2 ! q = h1 ! q"
    by blast
  from s2(3) s1(3) have t2: "t2 = t1" by (rule nf_reduces)
  from addrs_bound [OF s1(2)] s2(5) have "\<forall>q \<in> addrs h1 c1 t1. h2 ! q = h1 ! q" by auto
  from repr_frame [OF s1(2) s2(4) this] have "repr h2 c1 t1" by simp
  from ast_eq_repr [OF s2(2) this] t2 have "ast_eq h2 (Some c2) (Some c1) = Some True" by simp
  with s1(1) s2(1) show ?thesis by blast
qed

theorem saturation_idempotent_witness:
  "parse_expression (tokenize ''2*(3+4)'') =
     Inr (Node ''*'' (Leaf ''2'') (Node ''+'' (Leaf ''3'') (Leaf ''4''))) \<and>
   build [] (Node ''*'' (Leaf ''2'') (Node ''+'' (Leaf ''3'') (Leaf ''4''))) =
     ([\<lparr>val = ''2'', left = None, right = None\<rparr>,
       \<lparr>val = ''3'', left = None, right = None\<rparr>,
       \<lparr>val = ''4'', left = None, right = None\<rparr>,
       \<lparr>val = ''+'', left = Some 1, right = Some 2\<rparr>,
       \<lparr>val = ''*'', left = Some 0, right = Some 3\<rparr>], Some 4) \<and>
   (\<exists>h1 c1 h2 c2. saturation
       [\<lparr>val = ''2'', left = None, right = None\<rparr>,
        \<lparr>val = ''3'', left = None, right = None\<rparr>,
        \<lparr>val = ''4'', left = None, right = None\<rparr>,
        \<lparr>val = ''+'', left = Some 1, right = Some 2\<rparr>,
        \<lparr>val = ''*'', left = Some 0, right = Some 3\<rparr>] (Some 4) = Some (Inr (h1, Some c1)) \<and>
      saturation h1 (Some c1) = Some (Inr (h2, Some c2)) \<and>
      ast_eq h2 (Some c2) (Some c1) = Some True)"
proof -
  let ?t = "Node ''*'' (Leaf ''2'') (Node ''+'' (Leaf ''3'') (Leaf ''4''))"
  let ?h = "[\<lparr>val = ''2'', left = None, right = None\<rparr>,
       \<lparr>val = ''3'', left = None, right = None\<rparr>,
       \<lparr>val = ''4'', left = None, right = None\<rparr>,
       \<lparr>val = ''+'', left = Some 1, right = Some 2\<rparr>,
       \<lparr>val = ''*'', left = Some 0, right = Some (3::nat)\<rparr>]"
  have h1: "parse_expression (tokenize ''2*(3+4)'') = Inr ?t"
    by code_simp
  have h2: "build [] ?t = (?h, Some 4)"
    by (simp add: new_node_def)
  have h3: "repr ?h 4 ?t"
    by (simp add: repr.simps)
  from saturation_idempotent [OF h1 h3] h1 h2 show ?thesis by simp
qed



text \<open>
  Claim C10.  For every tree \<open>t\<close> held by the caller at the object \<open>p\<close>: when the call
  of \<^verbatim>\<open>saturation\<close> ends, by returning or by raising, \<open>p\<close> still holds the tree \<open>t\<close> in the
  store the call leaves, and every object that existed before the call has its old
  fields; and on a tree with the shape of a parser tree the call returns.
\<close>

theorem saturation_preserves_argument:
  assumes "repr h p t"
  shows "(\<forall>res. saturation h (Some p) = Some res \<longrightarrow>
            repr (store_of res) p t \<and> (\<forall>q<length h. store_of res ! q = h ! q)) \<and>
         (parser_tree t \<longrightarrow> (\<exists>h' c. saturation h (Some p) = Some (Inr (h', c))))"
proof -
  have a: "repr (store_of res) p t \<and> (\<forall>q<length h. store_of res ! q = h ! q)"
    if s: "saturation h (Some p) = Some res" for res
  proof -
    from saturation_frame [OF s]
    have f: "length h \<le> length (store_of res)" "\<forall>q<length h. store_of res ! q = h ! q"
      by simp_all
    from addrs_bound [OF assms] f(2) have "\<forall>q \<in> addrs h p t. store_of res ! q = h ! q"
      by auto
    from repr_frame [OF assms f(1) this] f(2) show ?thesis by simp
  qed
  have b: "\<exists>h' c. saturation h (Some p) = Some (Inr (h', c))" if "parser_tree t"
    using saturation_correct [OF assms that] by blast
  from a b show ?thesis by blast
qed

theorem saturation_preserves_argument_witness:
  "repr [\<lparr>val = ''1'', left = None, right = None\<rparr>,
         \<lparr>val = ''x'', left = None, right = None\<rparr>,
         \<lparr>val = ''*'', left = Some 0, right = Some 1\<rparr>] 2
        (Node ''*'' (Leaf ''1'') (Leaf ''x'')) \<and>
   parser_tree (Node ''*'' (Leaf ''1'') (Leaf ''x'')) \<and>
   (\<exists>h' c. saturation [\<lparr>val = ''1'', left = None, right = None\<rparr>,
         \<lparr>val = ''x'', left = None, right = None\<rparr>,
         \<lparr>val = ''*'', left = Some 0, right = Some 1\<rparr>] (Some 2) = Some (Inr (h', c)) \<and>
      repr h' 2 (Node ''*'' (Leaf ''1'') (Leaf ''x'')) \<and>
      take 3 h' = [\<lparr>val = ''1'', left = None, right = None\<rparr>,
         \<lparr>val = ''x'', left = None, right = None\<rparr>,
         \<lparr>val = ''*'', left = Some 0, right = Some 1\<rparr>]) \<and>
   repr [\<lparr>val = ''a'', left = None, right = None\<rparr>,
         \<lparr>val = ''+'', left = None, right = None\<rparr>,
         \<lparr>val = ''*'', left = Some 0, right = Some 1\<rparr>] 2
        (Node ''*'' (Leaf ''a'') (Leaf ''+'')) \<and>
   (\<exists>h'. saturation [\<lparr>val = ''a'', left = None, right = None\<rparr>,
         \<lparr>val = ''+'', left = None, right = None\<rparr>,
         \<lparr>val = ''*'', left = Some 0, right = Some 1\<rparr>] (Some 2) =
           Some (Inl (AttributeError, h')) \<and>
      repr h' 2 (Node ''*'' (Leaf ''a'') (Leaf ''+'')) \<and>
      take 3 h' = [\<lparr>val = ''a'', left = None, right = None\<rparr>,
         \<lparr>val = ''+'', left = None, right = None\<rparr>,
         \<lparr>val = ''*'', left = Some 0, right = Some 1\<rparr>])"
proof -
  let ?t = "Node ''*'' (Leaf ''1'') (Leaf ''x'')"
  let ?h = "[\<lparr>val = ''1'', left = None, right = None\<rparr>,
         \<lparr>val = ''x'', left = None, right = None\<rparr>,
         \<lparr>val = ''*'', left = Some 0, right = Some (1::nat)\<rparr>]"
  let ?u = "Node ''*'' (Leaf ''a'') (Leaf ''+'')"
  let ?g = "[\<lparr>val = ''a'', left = None, right = None\<rparr>,
         \<lparr>val = ''+'', left = None, right = None\<rparr>,
         \<lparr>val = ''*'', left = Some 0, right = Some (1::nat)\<rparr>]"
  have h1: "repr ?h 2 ?t"
    by (simp add: repr.simps)
  have h2: "parser_tree ?t"
    by (simp add: isalpha_def isdigit_def is_alpha_char_def is_digit_char_def)
  have g1: "repr ?g 2 ?u"
    by (simp add: repr.simps)
  have "case saturation ?g (Some 2) of
      Some (Inl (e, h')) \<Rightarrow> e = AttributeError | _ \<Rightarrow> False"
    by code_simp
  then obtain g' where g2: "saturation ?g (Some 2) = Some (Inl (AttributeError, g'))"
    by (auto split: option.splits sum.splits)
  from saturation_preserves_argument [OF h1] h2 obtain h' c where
    s: "saturation ?h (Some 2) = Some (Inr (h', c))" by blast
  from saturation_preserves_argument [OF h1] s
  have r: "repr h' 2 ?t" "\<forall>q<length ?h. h' ! q = ?h ! q" by fastforce+
  from saturation_frame [OF s] have "3 \<le> length h'" by simp
  with r(2) have k1: "take 3 h' = ?h"
    by (simp add: list_eq_iff_nth_eq)
  from saturation_preserves_argument [OF g1] g2
  have r': "repr g' 2 ?u" "\<forall>q<length ?g. g' ! q = ?g ! q" by fastforce+
  from saturation_frame [OF g2] have "3 \<le> length g'" by simp
  with r'(2) have k2: "take 3 g' = ?g"
    by (simp add: list_eq_iff_nth_eq)
  from h1 h2 s r(1) k1 g1 g2 r'(1) k2 show ?thesis by blast
qed

section \<open>Cost of the saturated tree\<close>

lemma sum_free_not_sum: "sum_free t \<Longrightarrow> \<not> is_sum t"
  by (cases t) auto

lemma sum_free_spec_rules: "sum_free (Node v l r) \<Longrightarrow> sum_free (spec_rules v l r)"
  by (auto simp: spec_rules_def dest: sum_free_not_sum)

lemma reduces_sum_free: "reduces t t' \<Longrightarrow> sum_free t \<Longrightarrow> sum_free t'"
proof (induction rule: reduces.induct)
  case (red_rule v l r)
  then show ?case by (rule sum_free_spec_rules)
qed auto

lemma spec_rules_no_expansion:
  assumes "no_sum_in_right_operand (Node v l r)"
  shows "no_sum_in_right_operand (spec_rules v l r) \<and> cost (spec_rules v l r) \<le> cost (Node v l r)"
proof -
  from assms have "\<not> (v = ''*'' \<and> is_sum r)" by (auto dest: sum_free_not_sum)
  with assms show ?thesis by (auto simp: spec_rules_def)
qed

lemma reduces_no_expansion:
  "reduces t t' \<Longrightarrow> no_sum_in_right_operand t \<Longrightarrow>
     no_sum_in_right_operand t' \<and> cost t' \<le> cost t"
proof (induction rule: reduces.induct)
  case (red_refl t)
  then show ?case by simp
next
  case (red_rule v l r)
  then show ?case by (rule spec_rules_no_expansion)
next
  case (red_cong l l' r r' v)
  then show ?case by (auto dest: reduces_sum_free)
next
  case (red_trans s t u)
  then show ?case by fastforce
qed

text \<open>
  The input \<^verbatim>\<open>"a*(b+c)"\<close>: the parsed tree has five nodes, not four, and the saturated
  tree has seven, not five.
\<close>

theorem distributive_example_counterexample:
  "parse_expression (tokenize ''a*(b+c)'') =
     Inr (Node ''*'' (Leaf ''a'') (Node ''+'' (Leaf ''b'') (Leaf ''c''))) \<and>
   cost (Node ''*'' (Leaf ''a'') (Node ''+'' (Leaf ''b'') (Leaf ''c''))) \<noteq> 4 \<and>
   saturate (Node ''*'' (Leaf ''a'') (Node ''+'' (Leaf ''b'') (Leaf ''c''))) =
     Some (Inr (Node ''+'' (Node ''*'' (Leaf ''a'') (Leaf ''b'')) (Node ''*'' (Leaf ''a'') (Leaf ''c'')))) \<and>
   cost (Node ''+'' (Node ''*'' (Leaf ''a'') (Leaf ''b'')) (Node ''*'' (Leaf ''a'') (Leaf ''c''))) \<noteq> 5"
  by code_simp

text \<open>
  Claim C3, as the code has it.  For the input \<^verbatim>\<open>"a*(b+c)"\<close> the pipeline of tokenizer,
  parser and saturation driver yields a tree that prints as \<^verbatim>\<open>"((a * b) + (a * c))"\<close>
  with cost 7, where the parsed tree has cost 5.
\<close>

theorem distributive_example:
  "parse_expression (tokenize ''a*(b+c)'') =
     Inr (Node ''*'' (Leaf ''a'') (Node ''+'' (Leaf ''b'') (Leaf ''c''))) \<and>
   saturate (Node ''*'' (Leaf ''a'') (Node ''+'' (Leaf ''b'') (Leaf ''c''))) =
     Some (Inr (Node ''+'' (Node ''*'' (Leaf ''a'') (Leaf ''b'')) (Node ''*'' (Leaf ''a'') (Leaf ''c'')))) \<and>
   print_ast (Node ''+'' (Node ''*'' (Leaf ''a'') (Leaf ''b'')) (Node ''*'' (Leaf ''a'') (Leaf ''c''))) =
     ''((a * b) + (a * c))'' \<and>
   cost (Node ''+'' (Node ''*'' (Leaf ''a'') (Leaf ''b'')) (Node ''*'' (Leaf ''a'') (Leaf ''c''))) = 7 \<and>
   cost (Node ''*'' (Leaf ''a'') (Node ''+'' (Leaf ''b'') (Leaf ''c''))) = 5"
  by code_simp

text \<open>
  The input \<^verbatim>\<open>"(x+y)*((b+c)*1)"\<close> has no product whose right child is a sum, and its
  cost grows from 9 to 11: the first pass rewrites \<open>(b+c)*1\<close> to \<open>b+c\<close>, which puts a
  sum to the right of the outer product, and the distributive rule fires there.
\<close>

theorem cost_can_grow_counterexample:
  "parse_expression (tokenize ''(x+y)*((b+c)*1)'') =
     Inr (Node ''*'' (Node ''+'' (Leaf ''x'') (Leaf ''y''))
            (Node ''*'' (Node ''+'' (Leaf ''b'') (Leaf ''c'')) (Leaf ''1''))) \<and>
   no_product_over_sum (Node ''*'' (Node ''+'' (Leaf ''x'') (Leaf ''y''))
            (Node ''*'' (Node ''+'' (Leaf ''b'') (Leaf ''c'')) (Leaf ''1''))) \<and>
   saturate (Node ''*'' (Node ''+'' (Leaf ''x'') (Leaf ''y''))
            (Node ''*'' (Node ''+'' (Leaf ''b'') (Leaf ''c'')) (Leaf ''1''))) =
     Some (Inr (Node ''+'' (Node ''*'' (Node ''+'' (Leaf ''x'') (Leaf ''y'')) (Leaf ''b''))
                  (Node ''*'' (Node ''+'' (Leaf ''x'') (Leaf ''y'')) (Leaf ''c'')))) \<and>
   cost (Node ''*'' (Node ''+'' (Leaf ''x'') (Leaf ''y''))
            (Node ''*'' (Node ''+'' (Leaf ''b'') (Leaf ''c'')) (Leaf ''1''))) = 9 \<and>
   cost (Node ''+'' (Node ''*'' (Node ''+'' (Leaf ''x'') (Leaf ''y'')) (Leaf ''b''))
                  (Node ''*'' (Node ''+'' (Leaf ''x'') (Leaf ''y'')) (Leaf ''c''))) = 11"
  by code_simp

text \<open>
  Claim C4, as the code has it.  For every parsed tree \<open>t\<close> in which no product node has
  a sum node anywhere in its right operand, the saturated tree costs at most what \<open>t\<close>
  costs.
\<close>

theorem cost_monotone_without_sums:
  assumes "parse_expression ts = Inr t" "no_sum_in_right_operand t"
  shows "\<exists>t'. saturate t = Some (Inr t') \<and> cost t' \<le> cost t"
proof -
  from assms(1) have "parser_tree t" by (rule parse_expression_shape)
  from saturate_correct [OF this] obtain t' where "saturate t = Some (Inr t')" "reduces t t'"
    by blast
  with reduces_no_expansion [OF this(2) assms(2)] show ?thesis by blast
qed

theorem cost_monotone_without_sums_witness:
  "parse_expression (tokenize ''(a+0)*1'') =
     Inr (Node ''*'' (Node ''+'' (Leaf ''a'') (Leaf ''0'')) (Leaf ''1'')) \<and>
   no_sum_in_right_operand (Node ''*'' (Node ''+'' (Leaf ''a'') (Leaf ''0'')) (Leaf ''1'')) \<and>
   (\<exists>t'. saturate (Node ''*'' (Node ''+'' (Leaf ''a'') (Leaf ''0'')) (Leaf ''1'')) = Some (Inr t') \<and>
      cost t' \<le> cost (Node ''*'' (Node ''+'' (Leaf ''a'') (Leaf ''0'')) (Leaf ''1'')))"
proof -
  have h1: "parse_expression (tokenize ''(a+0)*1'') =
      Inr (Node ''*'' (Node ''+'' (Leaf ''a'') (Leaf ''0'')) (Leaf ''1''))"
    by code_simp
  have h2: "no_sum_in_right_operand (Node ''*'' (Node ''+'' (Leaf ''a'') (Leaf ''0'')) (Leaf ''1''))"
    by simp
  from cost_monotone_without_sums [OF h1 h2] h1 h2 show ?thesis by blast
qed

end
